theory Spec2Isabelle
  imports Main "HOL-Library.Word" "HOL-Library.List_Lexorder" "HOL-Library.Monad_Syntax"
begin

section \<open>Bytes, strings and fixed-width integers\<close>

text \<open>
  A \<^verbatim>\<open>std::string\<close> or \<^verbatim>\<open>std::string_view\<close> is a list of bytes. Keys are compared with
  the operators of \<^verbatim>\<open>std::string_view\<close>, which compare bytes as unsigned values,
  lexicographically, a proper prefix being smaller: this is the order of
  \<^verbatim>\<open>HOL-Library.List_Lexorder\<close> on lists of 8-bit words.

  The source copies integers to and from buffers with \<^verbatim>\<open>memcpy\<close> and
  \<^verbatim>\<open>reinterpret_cast\<close>, in the byte order of the machine; the model fixes the
  little-endian order of the platforms the program is built for.
\<close>

type_synonym byte = "8 word"
type_synonym bytes = "byte list"

fun enc_le :: "nat \<Rightarrow> nat \<Rightarrow> bytes" where
  "enc_le 0 n = []"
| "enc_le (Suc k) n = of_nat (n mod 256) # enc_le k (n div 256)"

fun dec_le :: "bytes \<Rightarrow> nat" where
  "dec_le [] = 0"
| "dec_le (b # bs) = unat b + 256 * dec_le bs"

definition enc_u32 :: "32 word \<Rightarrow> bytes" where
  "enc_u32 w = enc_le 4 (unat w)"

definition enc_u64 :: "64 word \<Rightarrow> bytes" where
  "enc_u64 w = enc_le 8 (unat w)"

text \<open>\<^verbatim>\<open>memcpy(&x, p, sizeof(x))\<close> for a 32-bit and a 64-bit \<^verbatim>\<open>x\<close>: the caller passes
  the \<^verbatim>\<open>sizeof(x)\<close> bytes at \<^verbatim>\<open>p\<close>.\<close>

definition dec_u32 :: "bytes \<Rightarrow> 32 word" where
  "dec_u32 bs = of_nat (dec_le bs)"

definition dec_u64 :: "bytes \<Rightarrow> 64 word" where
  "dec_u64 bs = of_nat (dec_le bs)"

section \<open>base.h: layout constants, BlockHandle, Footer, key/value records\<close>

definition DATA_BLOCK_SIZE_THRESHOLD :: nat where
  "DATA_BLOCK_SIZE_THRESHOLD = 128"

definition SSTABLE_MAGIC_NUMBER :: "64 word" where
  "SSTABLE_MAGIC_NUMBER = 0xDEADBEEFCAFEF00D"

definition BLOCK_HANDLE_SIZE :: nat where
  "BLOCK_HANDLE_SIZE = 8 + 4"

definition FOOTER_SIZE :: nat where
  "FOOTER_SIZE = BLOCK_HANDLE_SIZE + 8"

text \<open>The fields \<^verbatim>\<open>offset_\<close> and \<^verbatim>\<open>size_\<close> of the source (a name cannot end with an
  underscore here).\<close>

record BlockHandle =
  h_offset :: "64 word"
  h_size :: "32 word"

definition BlockHandle_init :: BlockHandle where
  "BlockHandle_init = \<lparr>h_offset = 0, h_size = 0\<rparr>"

text \<open>\<^verbatim>\<open>BlockHandle::EncodeTo(dst)\<close>: appends 12 bytes to \<^verbatim>\<open>dst\<close>.\<close>

definition BlockHandle_EncodeTo :: "BlockHandle \<Rightarrow> bytes \<Rightarrow> bytes" where
  "BlockHandle_EncodeTo h dst = dst @ enc_u64 (h_offset h) @ enc_u32 (h_size h)"

text \<open>\<^verbatim>\<open>BlockHandle::DecodeFrom(input)\<close>: the result, the handle and the view after the
  call. A failing call changes neither the handle nor the view.\<close>

definition BlockHandle_DecodeFrom :: "BlockHandle \<Rightarrow> bytes \<Rightarrow> bool \<times> BlockHandle \<times> bytes" where
  "BlockHandle_DecodeFrom h input =
     (if length input < 8 + 4 then (False, h, input)
      else
        let h1 = h\<lparr>h_offset := dec_u64 (take 8 input)\<rparr>;
            input1 = drop 8 input;
            h2 = h1\<lparr>h_size := dec_u32 (take 4 input1)\<rparr>;
            input2 = drop 4 input1
        in (True, h2, input2))"

record Footer =
  index_block_handle :: BlockHandle
  magic_number :: "64 word"

definition Footer_init :: Footer where
  "Footer_init = \<lparr>index_block_handle = BlockHandle_init, magic_number = 0\<rparr>"

definition Footer_EncodeTo :: "Footer \<Rightarrow> bytes \<Rightarrow> bytes" where
  "Footer_EncodeTo f dst =
     BlockHandle_EncodeTo (index_block_handle f) dst @ enc_u64 (magic_number f)"

text \<open>\<^verbatim>\<open>Footer::DecodeFrom(input)\<close>: the result and the footer after the call. The magic
  number is copied into the footer before it is compared.\<close>

definition Footer_DecodeFrom :: "Footer \<Rightarrow> bytes \<Rightarrow> bool \<times> Footer" where
  "Footer_DecodeFrom f input =
     (if length input < BLOCK_HANDLE_SIZE + 8 then (False, f)
      else
        let f1 = f\<lparr>magic_number := dec_u64 (take 8 (drop BLOCK_HANDLE_SIZE input))\<rparr>
        in if magic_number f1 \<noteq> SSTABLE_MAGIC_NUMBER then (False, f1)
           else
             let handle_input = take BLOCK_HANDLE_SIZE input;
                 (ok, h, rest) = BlockHandle_DecodeFrom (index_block_handle f1) handle_input
             in (ok, f1\<lparr>index_block_handle := h\<rparr>))"

text \<open>\<^verbatim>\<open>writeKV(buffer, key, value)\<close>: the lengths are cast to 32 bits.\<close>

definition writeKV :: "bytes \<Rightarrow> bytes \<Rightarrow> bytes \<Rightarrow> bytes" where
  "writeKV buffer key val =
     buffer @ enc_u32 (of_nat (length key)) @ key @ enc_u32 (of_nat (length val)) @ val"

text \<open>\<^verbatim>\<open>getEntrySize\<close>: the sum is computed in \<^verbatim>\<open>size_t\<close> and returned as
  \<^verbatim>\<open>uint32_t\<close>.\<close>

definition getEntrySize :: "bytes \<Rightarrow> bytes \<Rightarrow> 32 word" where
  "getEntrySize key val = of_nat (4 + length key + 4 + length val)"

text \<open>\<^verbatim>\<open>readKV(input, key, value)\<close>: \<^verbatim>\<open>None\<close> for the result \<^verbatim>\<open>false\<close>, otherwise the
  key, the value and the view after the record. Every caller stops at a failure and never
  looks at the views of a failed call.\<close>

definition readKV :: "bytes \<Rightarrow> (bytes \<times> bytes \<times> bytes) option" where
  "readKV input =
     (if length input < 4 then None
      else
        let key_len = unat (dec_u32 (take 4 input));
            input1 = drop 4 input
        in if length input1 < key_len then None
           else
             let key = take key_len input1;
                 input2 = drop key_len input1
             in if length input2 < 4 then None
                else
                  let value_len = unat (dec_u32 (take 4 input2));
                      input3 = drop 4 input2
                  in if length input3 < value_len then None
                     else Some (key, take value_len input3, drop value_len input3))"

text \<open>
  The same function with the bounds of the view made explicit, to state that it stays
  inside the view. \<^verbatim>\<open>view_read input n\<close> is what \<^verbatim>\<open>memcpy(dst, input->data(), n)\<close> and
  \<^verbatim>\<open>std::string_view(input->data(), n)\<close> read, and \<^verbatim>\<open>remove_prefix input n\<close> is
  \<^verbatim>\<open>input->remove_prefix(n)\<close>; both are \<^verbatim>\<open>None\<close> when the view has fewer than \<^verbatim>\<open>n\<close>
  bytes, where the source would read past its end. In \<^verbatim>\<open>readKV_checked\<close> the outer
  \<^verbatim>\<open>None\<close> is such an access, \<^verbatim>\<open>Some None\<close> the result \<^verbatim>\<open>false\<close>.
\<close>

definition view_read :: "bytes \<Rightarrow> nat \<Rightarrow> bytes option" where
  "view_read input n = (if n \<le> length input then Some (take n input) else None)"

definition remove_prefix :: "bytes \<Rightarrow> nat \<Rightarrow> bytes option" where
  "remove_prefix input n = (if n \<le> length input then Some (drop n input) else None)"

definition readKV_checked :: "bytes \<Rightarrow> (bytes \<times> bytes \<times> bytes) option option" where
  "readKV_checked input =
     (if length input < 4 then Some None
      else do {
        key_len_bytes \<leftarrow> view_read input 4;
        input1 \<leftarrow> remove_prefix input 4;
        let key_len = unat (dec_u32 key_len_bytes);
        if length input1 < key_len then Some None
        else do {
          key \<leftarrow> view_read input1 key_len;
          input2 \<leftarrow> remove_prefix input1 key_len;
          if length input2 < 4 then Some None
          else do {
            value_len_bytes \<leftarrow> view_read input2 4;
            input3 \<leftarrow> remove_prefix input2 4;
            let value_len = unat (dec_u32 value_len_bytes);
            if length input3 < value_len then Some None
            else do {
              val \<leftarrow> view_read input3 value_len;
              input4 \<leftarrow> remove_prefix input3 value_len;
              Some (Some (key, val, input4))
            }
          }
        }
      })"

section \<open>The file streams\<close>

text \<open>
  The part of \<^verbatim>\<open>std::ofstream\<close> the builder uses. \<^verbatim>\<open>os_fail\<close> is what \<^verbatim>\<open>!ofs_\<close>
  tests, \<^verbatim>\<open>os_data\<close> the bytes of the file. The constructor is given the answer of the
  environment: whether the file can be created. A stream that is good accepts every
  write (the model has no full disk); a failed stream ignores them.
\<close>

record ofstream =
  os_is_open :: bool
  os_fail :: bool
  os_data :: bytes

definition ofstream_open :: "bool \<Rightarrow> ofstream" where
  "ofstream_open can_open =
     (if can_open then \<lparr>os_is_open = True, os_fail = False, os_data = []\<rparr>
      else \<lparr>os_is_open = False, os_fail = True, os_data = []\<rparr>)"

definition os_write :: "ofstream \<Rightarrow> bytes \<Rightarrow> ofstream" where
  "os_write s bs = (if os_fail s then s else s\<lparr>os_data := os_data s @ bs\<rparr>)"

text \<open>\<^verbatim>\<open>static_cast<uint64_t>(ofs_.tellp())\<close>: the position of an appending stream is
  the size of the file; a failed stream answers -1.\<close>

definition os_tellp :: "ofstream \<Rightarrow> 64 word" where
  "os_tellp s = (if os_fail s then - 1 else of_nat (length (os_data s)))"

definition os_close :: "ofstream \<Rightarrow> ofstream" where
  "os_close s = s\<lparr>os_is_open := False\<rparr>"

text \<open>
  The part of \<^verbatim>\<open>std::ifstream\<close> the reader uses. \<^verbatim>\<open>is_fail\<close> is what \<^verbatim>\<open>!ifs_\<close>
  tests; once set it stays, and the stream neither seeks nor reads any more.
  \<^verbatim>\<open>is_reads\<close> is a ghost field, not in the source: it counts the calls of \<^verbatim>\<open>read\<close>,
  so that a theorem can say that no read was issued. The constructor is given the
  contents of the file, or \<^verbatim>\<open>None\<close> when it cannot be opened; the stream is opened at
  its end (\<^verbatim>\<open>std::ios::ate\<close>).
\<close>

record ifstream =
  is_is_open :: bool
  is_fail :: bool
  is_data :: bytes
  is_pos :: nat
  is_gcount :: nat
  is_reads :: nat

definition ifstream_open :: "bytes option \<Rightarrow> ifstream" where
  "ifstream_open file =
     (case file of
        None \<Rightarrow> \<lparr>is_is_open = False, is_fail = True, is_data = [], is_pos = 0,
                 is_gcount = 0, is_reads = 0\<rparr>
      | Some content \<Rightarrow> \<lparr>is_is_open = True, is_fail = False, is_data = content,
                 is_pos = length content, is_gcount = 0, is_reads = 0\<rparr>)"

definition is_tellg :: "ifstream \<Rightarrow> int" where
  "is_tellg s = (if is_fail s then - 1 else int (is_pos s))"

text \<open>\<^verbatim>\<open>seekg(pos)\<close>: a negative position fails; a position after the end of the file is
  accepted (the read that follows finds nothing there).\<close>

definition is_seekg :: "ifstream \<Rightarrow> int \<Rightarrow> ifstream" where
  "is_seekg s pos =
     (if is_fail s then s
      else if pos < 0 then s\<lparr>is_fail := True\<rparr>
      else s\<lparr>is_pos := nat pos\<rparr>)"

text \<open>\<^verbatim>\<open>read(buf, n)\<close>: the bytes stored into the buffer and the stream after the call.
  Finding fewer than \<^verbatim>\<open>n\<close> bytes sets the failure bit.\<close>

definition is_read :: "ifstream \<Rightarrow> nat \<Rightarrow> bytes \<times> ifstream" where
  "is_read s n =
     (if is_fail s then ([], s\<lparr>is_gcount := 0, is_reads := is_reads s + 1\<rparr>)
      else
        let got = take n (drop (is_pos s) (is_data s))
        in (got, s\<lparr>is_pos := is_pos s + length got, is_gcount := length got,
                    is_fail := (length got < n), is_reads := is_reads s + 1\<rparr>))"

definition is_close :: "ifstream \<Rightarrow> ifstream" where
  "is_close s = s\<lparr>is_is_open := False\<rparr>"

section \<open>The index: an ordered map from keys to handles\<close>

text \<open>\<^verbatim>\<open>std::map<std::string, BlockHandle>\<close> as the list of its entries in ascending
  order of the keys, which is the order a range-based loop visits them in.\<close>

type_synonym index_map = "(bytes \<times> BlockHandle) list"

text \<open>\<^verbatim>\<open>m[key] = handle\<close>: a new entry at its place in the order, or the value of the
  existing entry replaced.\<close>

fun map_assign :: "bytes \<Rightarrow> BlockHandle \<Rightarrow> index_map \<Rightarrow> index_map" where
  "map_assign key handle [] = [(key, handle)]"
| "map_assign key handle ((k, h) # rest) =
     (if key < k then (key, handle) # (k, h) # rest
      else if key = k then (key, handle) # rest
      else (k, h) # map_assign key handle rest)"

text \<open>\<^verbatim>\<open>m.lower_bound(key)\<close>: the first entry whose key is not less than \<^verbatim>\<open>key\<close>;
  \<^verbatim>\<open>None\<close> for \<^verbatim>\<open>m.end()\<close>.\<close>

fun lower_bound :: "index_map \<Rightarrow> bytes \<Rightarrow> (bytes \<times> BlockHandle) option" where
  "lower_bound [] key = None"
| "lower_bound ((k, h) # rest) key =
     (if k < key then lower_bound rest key else Some (k, h))"

section \<open>SSTableBuilder\<close>

record SSTableBuilder =
  ofs :: ofstream
  finished :: bool
  cur_data_block :: bytes
  last_key_in_block :: bytes
  cur_data_block_offset :: "64 word"
  index_data :: index_map

text \<open>The constructor; \<^verbatim>\<open>can_open\<close> says whether the file can be created.\<close>

definition SSTableBuilder_new :: "bool \<Rightarrow> SSTableBuilder" where
  "SSTableBuilder_new can_open =
     \<lparr>ofs = ofstream_open can_open, finished = False, cur_data_block = [],
      last_key_in_block = [], cur_data_block_offset = 0, index_data = []\<rparr>"

definition is_open :: "SSTableBuilder \<Rightarrow> bool" where
  "is_open b = os_is_open (ofs b)"

definition FlushDataBlock :: "SSTableBuilder \<Rightarrow> SSTableBuilder" where
  "FlushDataBlock b =
     (if cur_data_block b = [] then b
      else
        let ofs1 = os_write (ofs b) (cur_data_block b);
            handle = BlockHandle_init\<lparr>h_offset := cur_data_block_offset b,
                       h_size := of_nat (length (cur_data_block b))\<rparr>
        in b\<lparr>ofs := ofs1,
              index_data := map_assign (last_key_in_block b) handle (index_data b),
              cur_data_block := []\<rparr>)"

text \<open>\<^verbatim>\<open>SSTableBuilder::Add(key, value)\<close>: the result and the builder after the call.
  In \<^verbatim>\<open>cur_data_block_.size() + entry_size\<close> the 32-bit entry size is widened to
  \<^verbatim>\<open>size_t\<close> before the addition.\<close>

definition Add :: "SSTableBuilder \<Rightarrow> bytes \<Rightarrow> bytes \<Rightarrow> bool \<times> SSTableBuilder" where
  "Add b key val =
     (if finished b \<or> os_fail (ofs b) then (False, b)
      else if last_key_in_block b \<noteq> [] \<and> cur_data_block b = [] \<and> key \<le> last_key_in_block b
      then (False, b)
      else
        let entry_size = getEntrySize key val;
            b1 = (if cur_data_block b = []
                  then b\<lparr>cur_data_block_offset := os_tellp (ofs b)\<rparr>
                  else if length (cur_data_block b) + unat entry_size > DATA_BLOCK_SIZE_THRESHOLD
                  then (let b' = FlushDataBlock b
                        in b'\<lparr>cur_data_block_offset := os_tellp (ofs b')\<rparr>)
                  else b);
            b2 = b1\<lparr>cur_data_block := writeKV (cur_data_block b1) key val\<rparr>;
            b3 = b2\<lparr>last_key_in_block := key\<rparr>
        in (True, b3))"

text \<open>The index block \<^verbatim>\<open>Finish\<close> builds in \<^verbatim>\<open>index_block_buffer\<close>: one record for each
  entry of the index, in ascending order of the keys.\<close>

definition index_block_buffer :: "index_map \<Rightarrow> bytes" where
  "index_block_buffer m =
     foldl (\<lambda>buffer (last_key, handle). writeKV buffer last_key (BlockHandle_EncodeTo handle []))
       [] m"

definition Finish :: "SSTableBuilder \<Rightarrow> bool \<times> SSTableBuilder" where
  "Finish b =
     (if finished b \<or> os_fail (ofs b) then (False, b)
      else
        let b1 = FlushDataBlock b;
            index_block_offset = os_tellp (ofs b1);
            buffer = index_block_buffer (index_data b1);
            ofs1 = os_write (ofs b1) buffer;
            footer = \<lparr>index_block_handle =
                        \<lparr>h_offset = index_block_offset, h_size = of_nat (length buffer)\<rparr>,
                      magic_number = SSTABLE_MAGIC_NUMBER\<rparr>;
            footer_encoded = Footer_EncodeTo footer [];
            ofs2 = os_write ofs1 (take FOOTER_SIZE footer_encoded)
        in (True, b1\<lparr>finished := True, ofs := os_close ofs2\<rparr>))"

text \<open>The loop of the driver, \<^verbatim>\<open>for (pair : test_data) builder.Add(pair.first,
  pair.second)\<close>: the records are added in the order of the list, and the results of
  \<^verbatim>\<open>Add\<close> are dropped.\<close>

fun AddAll :: "SSTableBuilder \<Rightarrow> (bytes \<times> bytes) list \<Rightarrow> SSTableBuilder" where
  "AddAll b [] = b"
| "AddAll b ((key, val) # rest) = AddAll (snd (Add b key val)) rest"

section \<open>The codec: lengths and round trips\<close>

lemma length_enc_le [simp]: "length (enc_le k n) = k"
  by (induction k arbitrary: n) auto

lemma dec_enc_le: "dec_le (enc_le k n) = n mod 256 ^ k"
proof (induction k arbitrary: n)
  case 0
  show ?case by simp
next
  case (Suc k)
  have "unat (of_nat (n mod 256) :: byte) = n mod 256"
    by (simp add: unat_of_nat)
  then show ?case
    using Suc by (simp add: mod_mult2_eq)
qed

lemma length_enc_u32 [simp]: "length (enc_u32 w) = 4"
  by (simp add: enc_u32_def)

lemma length_enc_u64 [simp]: "length (enc_u64 w) = 8"
  by (simp add: enc_u64_def)

lemma dec_enc_u32 [simp]: "dec_u32 (enc_u32 w) = w"
proof -
  have "unat w < 256 ^ 4"
    using unsigned_less [of w, where ?'a = nat] by simp
  then show ?thesis
    by (simp add: dec_u32_def enc_u32_def dec_enc_le)
qed

lemma dec_enc_u64 [simp]: "dec_u64 (enc_u64 w) = w"
proof -
  have "unat w < 256 ^ 8"
    using unsigned_less [of w, where ?'a = nat] by simp
  then show ?thesis
    by (simp add: dec_u64_def enc_u64_def dec_enc_le)
qed

text \<open>Unfolding a little-endian encoding of a given width, for evaluating the codec on
  concrete bytes.\<close>

lemma enc_le_numeral:
  "enc_le (numeral k) n = of_nat (n mod 256) # enc_le (pred_numeral k) (n div 256)"
proof -
  have "enc_le (numeral k) n = enc_le (Suc (pred_numeral k)) n"
    by (simp only: numeral_eq_Suc)
  then show ?thesis
    by (simp only: enc_le.simps)
qed

lemmas enc_eval = enc_u32_def enc_u64_def enc_le_numeral dec_u32_def dec_u64_def

lemma dec_le_bound: "dec_le bs < 256 ^ length bs"
proof (induction bs)
  case Nil
  show ?case by simp
next
  case (Cons b bs)
  have "unat b < 256"
    using unsigned_less [of b, where ?'a = nat] by simp
  then show ?case
    using Cons by simp
qed

lemma enc_dec_le: "enc_le (length bs) (dec_le bs) = bs"
proof (induction bs)
  case Nil
  show ?case by simp
next
  case (Cons b bs)
  have "unat b < 256"
    using unsigned_less [of b, where ?'a = nat] by simp
  then show ?case
    using Cons by simp
qed

lemma enc_dec_u32: "length bs = 4 \<Longrightarrow> enc_u32 (dec_u32 bs) = bs"
  using dec_le_bound [of bs] enc_dec_le [of bs]
  by (simp add: enc_u32_def dec_u32_def unat_of_nat)

lemma enc_dec_u64: "length bs = 8 \<Longrightarrow> enc_u64 (dec_u64 bs) = bs"
  using dec_le_bound [of bs] enc_dec_le [of bs]
  by (simp add: enc_u64_def dec_u64_def unat_of_nat)

lemma unat_of_nat32: "n < 4294967296 \<Longrightarrow> unat (of_nat n :: 32 word) = n"
  by (simp add: unat_of_nat)

lemma readKV_writeKV:
  assumes "length key < 4294967296" "length val < 4294967296"
  shows "readKV (writeKV [] key val @ rest) = Some (key, val, rest)"
  using assms by (simp add: readKV_def writeKV_def unat_of_nat32)

lemma readKV_Some_D:
  assumes "readKV input = Some (key, val, rest)"
  shows "length key < 4294967296 \<and> length val < 4294967296 \<and> input = writeKV [] key val @ rest"
proof -
  let ?kl = "dec_u32 (take 4 input)"
  let ?i2 = "drop (unat ?kl) (drop 4 input)"
  let ?vl = "dec_u32 (take 4 ?i2)"
  from assms have l1: "4 \<le> length input" and l2: "unat ?kl \<le> length (drop 4 input)"
    and l3: "4 \<le> length ?i2" and l4: "unat ?vl \<le> length (drop 4 ?i2)"
    and k: "key = take (unat ?kl) (drop 4 input)" and v: "val = take (unat ?vl) (drop 4 ?i2)"
    and r: "rest = drop (unat ?vl) (drop 4 ?i2)"
    by (auto simp: readKV_def Let_def split: if_splits)
  have lk: "length key = unat ?kl" using k l2 by simp
  have lv: "length val = unat ?vl" using v l4 by simp
  have bk: "unat ?kl < 4294967296" using unsigned_less [of ?kl, where ?'a = nat] by simp
  have bv: "unat ?vl < 4294967296" using unsigned_less [of ?vl, where ?'a = nat] by simp
  have e1: "enc_u32 (of_nat (length key)) = take 4 input"
    using l1 by (simp add: lk enc_dec_u32)
  have e2: "enc_u32 (of_nat (length val)) = take 4 ?i2"
    using l3 by (simp add: lv enc_dec_u32)
  have "input = take 4 input @ drop 4 input" by (simp only: append_take_drop_id)
  also have "drop 4 input = key @ ?i2" by (simp only: k append_take_drop_id)
  also have "?i2 = take 4 ?i2 @ drop 4 ?i2" by (simp only: append_take_drop_id)
  also have "drop 4 ?i2 = val @ rest" by (simp only: v r append_take_drop_id)
  finally have "input = writeKV [] key val @ rest"
    by (simp add: writeKV_def e1 e2)
  then show ?thesis using lk lv bk bv by simp
qed

section \<open>SSTableReader\<close>

text \<open>Each successful \<^verbatim>\<open>readKV\<close> consumes at least the two length fields, which is why
  the loops over a block end.\<close>

lemma readKV_length:
  "readKV input = Some (key, val, rest) \<Longrightarrow> length rest + 8 \<le> length input"
  by (auto simp: readKV_def Let_def split: if_splits)

record SSTableReader =
  ifs :: ifstream
  footer :: Footer
  is_valid :: bool
  rd_index_data :: index_map

text \<open>\<^verbatim>\<open>ReadDataBlock(handle, block_content)\<close>: \<^verbatim>\<open>None\<close> for the result \<^verbatim>\<open>false\<close>,
  otherwise the block; and the reader after the call. \<^verbatim>\<open>seekg\<close> takes the unsigned
  offset as a signed stream position.\<close>

definition ReadDataBlock :: "SSTableReader \<Rightarrow> BlockHandle \<Rightarrow> bytes option \<times> SSTableReader" where
  "ReadDataBlock r handle =
     (let s1 = is_seekg (ifs r) (sint (h_offset handle));
          (block_content, s2) = is_read s1 (unat (h_size handle))
      in if is_gcount s2 \<noteq> unat (h_size handle) then (None, r\<lparr>ifs := s2\<rparr>)
         else (Some block_content, r\<lparr>ifs := s2\<rparr>))"

text \<open>The loop of \<^verbatim>\<open>LoadIndex\<close> over the index block: the result and the index after
  it. The entries decoded before a failure stay in the index.\<close>

function LoadIndex_loop :: "bytes \<Rightarrow> index_map \<Rightarrow> bool \<times> index_map" where
  "LoadIndex_loop input m =
     (if input = [] then (True, m)
      else
        case readKV input of
          None \<Rightarrow> (False, m)
        | Some (last_key, handle_data, input') \<Rightarrow>
            (case BlockHandle_DecodeFrom BlockHandle_init handle_data of
               (False, handle, rest) \<Rightarrow> (False, m)
             | (True, handle, rest) \<Rightarrow> LoadIndex_loop input' (map_assign last_key handle m)))"
  by pat_completeness auto
termination
  by (relation "measure (\<lambda>(input, m). length input)") (auto dest: readKV_length)

declare LoadIndex_loop.simps [simp del]

definition LoadIndex :: "SSTableReader \<Rightarrow> bool \<times> SSTableReader" where
  "LoadIndex r =
     (let file_size = is_tellg (ifs r)
      in if file_size < int FOOTER_SIZE then (False, r)
         else
           let s1 = is_seekg (ifs r) (file_size - int FOOTER_SIZE);
               (footer_buf, s2) = is_read s1 FOOTER_SIZE;
               r1 = r\<lparr>ifs := s2\<rparr>
           in if is_gcount s2 \<noteq> FOOTER_SIZE then (False, r1)
              else
                let (ok, f) = Footer_DecodeFrom (footer r1) footer_buf;
                    r2 = r1\<lparr>footer := f\<rparr>
                in if \<not> ok then (False, r2)
                   else
                     case ReadDataBlock r2 (index_block_handle (footer r2)) of
                       (None, r3) \<Rightarrow> (False, r3)
                     | (Some index_block_content, r3) \<Rightarrow>
                         (let (ok', m) = LoadIndex_loop index_block_content (rd_index_data r3)
                          in (ok', r3\<lparr>rd_index_data := m\<rparr>)))"

text \<open>The constructor; \<^verbatim>\<open>file\<close> is the contents of the file, or \<^verbatim>\<open>None\<close> when it
  cannot be opened.\<close>

definition SSTableReader_new :: "bytes option \<Rightarrow> SSTableReader" where
  "SSTableReader_new file =
     (let r = \<lparr>ifs = ifstream_open file, footer = Footer_init, is_valid = False,
                rd_index_data = []\<rparr>
      in if is_fail (ifs r) then r
         else
           case LoadIndex r of
             (False, r1) \<Rightarrow> r1\<lparr>ifs := is_close (ifs r1)\<rparr>
           | (True, r1) \<Rightarrow> r1\<lparr>is_valid := True\<rparr>)"

text \<open>\<^verbatim>\<open>FindInBlock(block_content, key, value)\<close>: the value found, \<^verbatim>\<open>None\<close> for the
  result \<^verbatim>\<open>false\<close>.\<close>

function FindInBlock :: "bytes \<Rightarrow> bytes \<Rightarrow> bytes option" where
  "FindInBlock input key =
     (if input = [] then None
      else
        case readKV input of
          None \<Rightarrow> None
        | Some (current_key, current_value, input') \<Rightarrow>
            if current_key = key then Some current_value
            else if current_key > key then None
            else FindInBlock input' key)"
  by pat_completeness auto
termination
  by (relation "measure (\<lambda>(input, key). length input)") (auto dest: readKV_length)

declare FindInBlock.simps [simp del]

text \<open>\<^verbatim>\<open>SSTableReader::Get(key, value)\<close>: the value found, \<^verbatim>\<open>None\<close> for the result
  \<^verbatim>\<open>false\<close>; and the reader after the call.\<close>

definition Get :: "SSTableReader \<Rightarrow> bytes \<Rightarrow> bytes option \<times> SSTableReader" where
  "Get r key =
     (if \<not> is_valid r then (None, r)
      else
        case lower_bound (rd_index_data r) key of
          None \<Rightarrow> (None, r)
        | Some (k, handle) \<Rightarrow>
            (case ReadDataBlock r handle of
               (None, r1) \<Rightarrow> (None, r1)
             | (Some block_content, r1) \<Rightarrow> (FindInBlock block_content key, r1)))"

text \<open>A sequence of queries on one reader, each on the reader the one before left.\<close>

fun GetAll :: "SSTableReader \<Rightarrow> bytes list \<Rightarrow> bytes option list \<times> SSTableReader" where
  "GetAll r [] = ([], r)"
| "GetAll r (key # keys) =
     (let (v, r1) = Get r key; (vs, r2) = GetAll r1 keys in (v # vs, r2))"

section \<open>Notions used in the statements\<close>

text \<open>The reader as the constructor leaves it before it calls \<^verbatim>\<open>LoadIndex\<close>, on a
  file that could be opened.\<close>

definition Reader_init :: "bytes \<Rightarrow> SSTableReader" where
  "Reader_init content =
     \<lparr>ifs = ifstream_open (Some content), footer = Footer_init, is_valid = False,
      rd_index_data = []\<rparr>"

text \<open>The file a builder leaves when \<^verbatim>\<open>Finish\<close> is called with no \<^verbatim>\<open>Add\<close> before
  it.\<close>

definition empty_table :: bytes where
  "empty_table = os_data (ofs (snd (Finish (SSTableBuilder_new True))))"

text \<open>A buffer that decodes as one record and nothing after it; and the bound on the
  buffer of the current block: at most the threshold, or one record.\<close>

definition one_record :: "bytes \<Rightarrow> bool" where
  "one_record buffer =
     (case readKV buffer of None \<Rightarrow> False | Some (key, val, rest) \<Rightarrow> rest = [])"

definition block_invariant :: "SSTableBuilder \<Rightarrow> bool" where
  "block_invariant b \<longleftrightarrow>
     length (cur_data_block b) \<le> DATA_BLOCK_SIZE_THRESHOLD \<or> one_record (cur_data_block b)"

text \<open>A builder that accepts records and whose buffer is empty only while no key was
  added.\<close>

definition buffer_holds_last :: "SSTableBuilder \<Rightarrow> bool" where
  "buffer_holds_last b \<longleftrightarrow>
     \<not> finished b \<and> \<not> os_fail (ofs b) \<and> (cur_data_block b = [] \<longrightarrow> last_key_in_block b = [])"

section \<open>The table a builder writes\<close>

text \<open>The driver as a whole: the records are added to a new builder on a file that could
  be created, \<^verbatim>\<open>Finish\<close> is called, and the bytes of the file are what a reader is then
  opened on.\<close>

type_synonym kv = "bytes \<times> bytes"

definition build_table :: "kv list \<Rightarrow> SSTableBuilder" where
  "build_table kvs = snd (Finish (AddAll (SSTableBuilder_new True) kvs))"

definition table_bytes :: "kv list \<Rightarrow> bytes" where
  "table_bytes kvs = os_data (ofs (build_table kvs))"

text \<open>
  The layout the proofs follow. A block is the list of its records, \<^verbatim>\<open>encode_block\<close> its
  bytes; \<^verbatim>\<open>scan\<close> is the loop of \<^verbatim>\<open>FindInBlock\<close> on the records instead of their bytes.
  \<^verbatim>\<open>blocks_step\<close> is the decision \<^verbatim>\<open>Add\<close> takes, on the blocks already flushed and the
  records of the current one; \<^verbatim>\<open>index_of\<close> is the index of a list of blocks written one
  after the other from an offset, \<^verbatim>\<open>find_block\<close> the search \<^verbatim>\<open>lower_bound\<close> does in it,
  and \<^verbatim>\<open>table_file\<close> the bytes of the finished file.
\<close>

definition encode_block :: "kv list \<Rightarrow> bytes" where
  "encode_block recs = concat (map (\<lambda>(key, val). writeKV [] key val) recs)"

definition records_ok :: "kv list \<Rightarrow> bool" where
  "records_ok recs \<longleftrightarrow> (\<forall>(key, val) \<in> set recs. 8 + length key + length val < 4294967296)"

fun scan :: "kv list \<Rightarrow> bytes \<Rightarrow> bytes option" where
  "scan [] key = None"
| "scan ((k, v) # recs) key =
     (if k = key then Some v else if k > key then None else scan recs key)"

definition encode_blocks :: "kv list list \<Rightarrow> bytes" where
  "encode_blocks blocks = concat (map encode_block blocks)"

fun index_of :: "nat \<Rightarrow> kv list list \<Rightarrow> index_map" where
  "index_of off [] = []"
| "index_of off (blk # blocks) =
     (fst (last blk), \<lparr>h_offset = of_nat off, h_size = of_nat (length (encode_block blk))\<rparr>)
       # index_of (off + length (encode_block blk)) blocks"

fun find_block :: "kv list list \<Rightarrow> bytes \<Rightarrow> nat \<Rightarrow> (nat \<times> kv list) option" where
  "find_block [] key off = None"
| "find_block (blk # blocks) key off =
     (if fst (last blk) < key then find_block blocks key (off + length (encode_block blk))
      else Some (off, blk))"

definition nonempty_blocks :: "kv list list \<Rightarrow> bool" where
  "nonempty_blocks blocks \<longleftrightarrow> [] \<notin> set blocks"

definition encode_index :: "index_map \<Rightarrow> bytes" where
  "encode_index m = concat (map (\<lambda>(key, handle). writeKV [] key (BlockHandle_EncodeTo handle [])) m)"

fun blocks_step :: "kv list list \<times> kv list \<Rightarrow> kv \<Rightarrow> kv list list \<times> kv list" where
  "blocks_step (blocks, cur) (key, val) =
     (if cur = [] then (blocks, [(key, val)])
      else if length (encode_block cur) + unat (getEntrySize key val) > DATA_BLOCK_SIZE_THRESHOLD
      then (blocks @ [cur], [(key, val)])
      else (blocks, cur @ [(key, val)]))"

definition final_blocks :: "kv list list \<times> kv list \<Rightarrow> kv list list" where
  "final_blocks p = (if snd p = [] then fst p else fst p @ [snd p])"

definition layout :: "kv list \<Rightarrow> kv list list \<times> kv list" where
  "layout kvs = foldl blocks_step ([], []) kvs"

definition table_file :: "kv list list \<Rightarrow> bytes" where
  "table_file blocks =
     encode_blocks blocks @ encode_index (index_of 0 blocks) @
     enc_u64 (of_nat (length (encode_blocks blocks))) @
     enc_u32 (of_nat (length (encode_index (index_of 0 blocks)))) @
     enc_u64 SSTABLE_MAGIC_NUMBER"

text \<open>What relates a builder to the blocks flushed so far and the records of the current
  block; a reader that has loaded an index and whose stream is good; and the tables the
  fixed-width fields can describe.\<close>

definition builder_inv :: "kv list list \<Rightarrow> kv list \<Rightarrow> SSTableBuilder \<Rightarrow> bool" where
  "builder_inv blocks cur b \<longleftrightarrow>
     \<not> finished b \<and> \<not> os_fail (ofs b) \<and>
     os_data (ofs b) = encode_blocks blocks \<and>
     index_data b = index_of 0 blocks \<and>
     cur_data_block b = encode_block cur \<and>
     (cur \<noteq> [] \<longrightarrow> cur_data_block_offset b = of_nat (length (encode_blocks blocks)) \<and>
                  last_key_in_block b = fst (last cur)) \<and>
     (cur = [] \<longrightarrow> blocks = [] \<and> last_key_in_block b = []) \<and>
     nonempty_blocks blocks \<and>
     sorted_wrt (<) (map fst (concat blocks @ cur))"

definition good_reader :: "bytes \<Rightarrow> index_map \<Rightarrow> SSTableReader \<Rightarrow> bool" where
  "good_reader content m r \<longleftrightarrow>
     is_valid r \<and> rd_index_data r = m \<and> \<not> is_fail (ifs r) \<and> is_data (ifs r) = content"

definition table_ok :: "kv list list \<Rightarrow> bool" where
  "table_ok blocks \<longleftrightarrow>
     nonempty_blocks blocks \<and> sorted_wrt (<) (map fst (concat blocks)) \<and>
     records_ok (concat blocks) \<and>
     (\<forall>blk \<in> set blocks. length (encode_block blk) < 4294967296) \<and>
     length (encode_index (index_of 0 blocks)) < 4294967296 \<and>
     length (table_file blocks) < 9223372036854775808"

text \<open>A table of four records in two blocks; a value of 2^32 + 1 bytes; and a key of
  2^32 + 1 bytes whose first 17 bytes are the key a, the length 12 and the handle (0, 21)
  of an index entry.\<close>

definition four_records :: "kv list" where
  "four_records =
     [([97], replicate 30 1), ([98], replicate 30 2), ([99], replicate 30 3),
      ([100], replicate 30 4)]"

definition huge_value :: bytes where
  "huge_value = replicate 4294967297 0"


section \<open>Decoding a key/value record\<close>

lemma readKV_checked_eq: "readKV_checked input = Some (readKV input)"
  by (simp add: readKV_checked_def readKV_def view_read_def remove_prefix_def Let_def)

lemma readKV_None_iff:
  "readKV input = None \<longleftrightarrow>
     length input < 4 \<or>
     length input - 4 < unat (dec_u32 (take 4 input)) \<or>
     length input - 4 - unat (dec_u32 (take 4 input)) < 4 \<or>
     length input - 4 - unat (dec_u32 (take 4 input)) - 4
       < unat (dec_u32 (take 4 (drop (4 + unat (dec_u32 (take 4 input))) input)))"
  by (auto simp: readKV_def Let_def add.commute)

text \<open>
  Claim C6. For every view, \<^verbatim>\<open>readKV\<close> never reads past the end of the view (the
  checked function never meets an access outside it and computes the result of
  \<^verbatim>\<open>readKV\<close>). It fails exactly when the view is too short for the key length field, the
  declared key length exceeds the bytes after that field, the view is too short for the
  value length field, or the declared value length exceeds the bytes after that field.
  It succeeds with a key, a value and a remaining view exactly when the view is the two
  length fields, holding the lengths of that key and that value, each followed by its
  bytes, and then the remaining view.
\<close>

theorem readKV_safe_and_exact:
  "readKV_checked input = Some (readKV input) \<and>
   (readKV input = None \<longleftrightarrow>
      length input < 4 \<or>
      length input - 4 < unat (dec_u32 (take 4 input)) \<or>
      length input - 4 - unat (dec_u32 (take 4 input)) < 4 \<or>
      length input - 4 - unat (dec_u32 (take 4 input)) - 4
        < unat (dec_u32 (take 4 (drop (4 + unat (dec_u32 (take 4 input))) input)))) \<and>
   (readKV input = Some (key, val, rest) \<longleftrightarrow>
      length key < 4294967296 \<and> length val < 4294967296 \<and>
      input = enc_u32 (of_nat (length key)) @ key @ enc_u32 (of_nat (length val)) @ val @ rest)"
  using readKV_Some_D [of input key val rest] readKV_writeKV [of key val rest]
    readKV_checked_eq [of input] readKV_None_iff [of input]
  by (auto simp: writeKV_def)

theorem readKV_safe_and_exact_witness:
  "readKV [1, 0, 0, 0, 97, 2, 0, 0, 0, 49, 50, 7] = Some ([97], [49, 50], [7]) \<and>
   readKV_checked [1, 0, 0, 0, 97, 2, 0, 0, 0, 49, 50, 7] = Some (Some ([97], [49, 50], [7])) \<and>
   readKV [1, 0, 0, 0, 97, 2, 0, 0, 0, 49] = None \<and>
   readKV_checked [1, 0, 0, 0, 97, 2, 0, 0, 0, 49] = Some None \<and>
   readKV [1, 0, 0] = None"
  using readKV_safe_and_exact [of "[1, 0, 0, 0, 97, 2, 0, 0, 0, 49, 50, 7]" "[97]" "[49, 50]" "[7]"]
    readKV_safe_and_exact [of "[1, 0, 0, 0, 97, 2, 0, 0, 0, 49]" "[]" "[]" "[]"]
    readKV_safe_and_exact [of "[1, 0, 0]" "[]" "[]" "[]"]
  by (simp add: enc_eval)

section \<open>Evaluating the builder on concrete records\<close>

lemmas builder_eval = SSTableBuilder_new_def ofstream_open_def Add_def Finish_def
  FlushDataBlock_def os_write_def os_tellp_def os_close_def getEntrySize_def writeKV_def
  DATA_BLOCK_SIZE_THRESHOLD_def index_block_buffer_def Footer_EncodeTo_def
  BlockHandle_EncodeTo_def BlockHandle_init_def FOOTER_SIZE_def BLOCK_HANDLE_SIZE_def
  SSTABLE_MAGIC_NUMBER_def Let_def enc_eval

lemma unat_getEntrySize:
  "8 + length key + length val < 4294967296 \<Longrightarrow>
   unat (getEntrySize key val) = 8 + length key + length val"
  using unat_of_nat [of "4 + length key + 4 + length val", where ?'a = 32]
  by (simp add: getEntrySize_def)

lemma length_writeKV [simp]:
  "length (writeKV buffer key val) = length buffer + 8 + length key + length val"
  by (simp add: writeKV_def)

lemma writeKV_nonempty [simp]: "writeKV buffer key val \<noteq> []"
proof
  assume "writeKV buffer key val = []"
  then have "length (writeKV buffer key val) = 0"
    by (simp del: length_writeKV)
  then show False
    by simp
qed

lemma writeKV_append: "writeKV buffer key val = buffer @ writeKV [] key val"
  by (simp add: writeKV_def)

lemma one_record_writeKV:
  "8 + length key + length val < 4294967296 \<Longrightarrow> one_record (writeKV [] key val)"
  using readKV_writeKV [of key val "[]"] by (simp add: one_record_def)

lemma cur_data_block_FlushDataBlock [simp]: "cur_data_block (FlushDataBlock b) = []"
  by (simp add: FlushDataBlock_def Let_def)

lemma Finish_new:
  "Finish (SSTableBuilder_new True) =
     (True, \<lparr>ofs = \<lparr>os_is_open = False, os_fail = False,
                    os_data = enc_u64 0 @ enc_u32 0 @ enc_u64 SSTABLE_MAGIC_NUMBER\<rparr>,
             finished = True, cur_data_block = [], last_key_in_block = [],
             cur_data_block_offset = 0, index_data = []\<rparr>)"
  by (simp add: Finish_def SSTableBuilder_new_def ofstream_open_def Let_def FlushDataBlock_def
      os_tellp_def index_block_buffer_def os_write_def os_close_def Footer_EncodeTo_def
      BlockHandle_EncodeTo_def FOOTER_SIZE_def BLOCK_HANDLE_SIZE_def)

lemma Add_new:
  "Add (SSTableBuilder_new True) key val =
     (True, \<lparr>ofs = \<lparr>os_is_open = True, os_fail = False, os_data = []\<rparr>,
             finished = False, cur_data_block = writeKV [] key val,
             last_key_in_block = key, cur_data_block_offset = 0, index_data = []\<rparr>)"
  by (simp add: Add_def SSTableBuilder_new_def ofstream_open_def os_tellp_def Let_def)

lemma Add_a1:
  "Add (SSTableBuilder_new True) [97] [49] =
     (True, \<lparr>ofs = \<lparr>os_is_open = True, os_fail = False, os_data = []\<rparr>,
             finished = False, cur_data_block = [1, 0, 0, 0, 97, 1, 0, 0, 0, 49],
             last_key_in_block = [97], cur_data_block_offset = 0, index_data = []\<rparr>)"
  by (simp add: builder_eval)

text \<open>A value of 4294967287 bytes: with the key b the record has 2^32 bytes.\<close>

lemma Add_huge:
  "Add (snd (Add (SSTableBuilder_new True) [97] [49])) [98] (replicate 4294967287 0) =
     (True, \<lparr>ofs = \<lparr>os_is_open = True, os_fail = False, os_data = []\<rparr>,
             finished = False,
             cur_data_block = [1, 0, 0, 0, 97, 1, 0, 0, 0, 49] @
                              [1, 0, 0, 0, 98, 247, 255, 255, 255] @ replicate 4294967287 0,
             last_key_in_block = [98], cur_data_block_offset = 0, index_data = []\<rparr>)"
  apply (simp only: Add_a1 snd_conv)
  apply (simp add: Add_def getEntrySize_def writeKV_def DATA_BLOCK_SIZE_THRESHOLD_def
      Let_def enc_eval)
  done

section \<open>The order of the keys\<close>

text \<open>
  Claim C1: on an open, unfinished builder \<^verbatim>\<open>Add\<close> fails for every key that is not
  strictly greater than the keys added before, whether the record would join the
  accumulating block or start a new one, and then leaves the builder and the bytes
  already written unchanged; for a greater key it succeeds.

  The source means to reject such a key. The header asks for calls in ascending order of
  the keys; the test in \<^verbatim>\<open>Add\<close> is commented as the check that the keys ascend, made
  against the last key of the block before when a new block is started; and its message
  says that keys must be added in globally ascending order. The code does not do it. On
  a new builder the key b is added with a value of 100 bytes, a record of 109 bytes.
  The smaller key a with a value of 100 bytes does not fit into that block (218 bytes
  are over the threshold of 128), so its \<^verbatim>\<open>Add\<close> starts a new block: it returns true, the
  block of b is written to the file and entered in the index under b, and the record of
  a opens the next block. The key b a second time is accepted in the same way.
\<close>

theorem Add_accepts_smaller_key_at_block_start:
  "fst (Add (SSTableBuilder_new True) [98] (replicate 100 0)) \<and>
   \<not> [98 :: byte] < [97] \<and>
   DATA_BLOCK_SIZE_THRESHOLD
     < length (cur_data_block (snd (Add (SSTableBuilder_new True) [98] (replicate 100 0))))
       + unat (getEntrySize [97] (replicate 100 1)) \<and>
   Add (snd (Add (SSTableBuilder_new True) [98] (replicate 100 0))) [97] (replicate 100 1) =
     (True, \<lparr>ofs = \<lparr>os_is_open = True, os_fail = False,
                    os_data = writeKV [] [98] (replicate 100 0)\<rparr>,
             finished = False, cur_data_block = writeKV [] [97] (replicate 100 1),
             last_key_in_block = [97], cur_data_block_offset = 109,
             index_data = [([98], \<lparr>h_offset = 0, h_size = 109\<rparr>)]\<rparr>) \<and>
   \<not> [98 :: byte] < [98] \<and>
   Add (snd (Add (SSTableBuilder_new True) [98] (replicate 100 0))) [98] (replicate 100 1) =
     (True, \<lparr>ofs = \<lparr>os_is_open = True, os_fail = False,
                    os_data = writeKV [] [98] (replicate 100 0)\<rparr>,
             finished = False, cur_data_block = writeKV [] [98] (replicate 100 1),
             last_key_in_block = [98], cur_data_block_offset = 109,
             index_data = [([98], \<lparr>h_offset = 0, h_size = 109\<rparr>)]\<rparr>)"
  apply (simp only: Add_new snd_conv fst_conv)
  apply (simp add: Add_def Let_def unat_getEntrySize DATA_BLOCK_SIZE_THRESHOLD_def
      FlushDataBlock_def os_write_def os_tellp_def BlockHandle_init_def)
  done

text \<open>
  A key that joins the accumulating block is not compared at all: on a new builder that
  holds the key b with a value of one byte, the smaller key a and the key b once more are
  both accepted into the block of b.
\<close>

lemma Add_accepts_unordered_key_in_block:
  "fst (Add (SSTableBuilder_new True) [98] [49]) \<and>
   \<not> [98 :: byte] < [97] \<and>
   fst (Add (snd (Add (SSTableBuilder_new True) [98] [49])) [97] [50]) \<and>
   \<not> [98 :: byte] < [98] \<and>
   fst (Add (snd (Add (SSTableBuilder_new True) [98] [49])) [98] [50])"
  by (simp add: builder_eval)

text \<open>
  Why no key is ever rejected. The comparison is guarded by
  \<^verbatim>\<open>cur_data_block_.empty()\<close>: in a builder whose buffer is empty after a key was added,
  \<^verbatim>\<open>Add\<close> does reject a key that is not greater than the last one, and leaves the builder
  as it was. But no sequence of calls reaches such a builder: the buffer is empty only
  before the first record, and each flush inside \<^verbatim>\<open>Add\<close> is followed at once by the append
  of the new record. So on a new builder every \<^verbatim>\<open>Add\<close> of every sequence of records
  succeeds, in whatever order the keys come.
\<close>

lemma Add_rejects_at_empty_buffer:
  "\<not> finished b \<Longrightarrow> \<not> os_fail (ofs b) \<Longrightarrow> last_key_in_block b \<noteq> [] \<Longrightarrow>
   cur_data_block b = [] \<Longrightarrow> key \<le> last_key_in_block b \<Longrightarrow> Add b key val = (False, b)"
  by (simp add: Add_def)

lemma os_fail_FlushDataBlock [simp]: "os_fail (ofs (FlushDataBlock b)) = os_fail (ofs b)"
  by (simp add: FlushDataBlock_def os_write_def Let_def)

lemma finished_FlushDataBlock [simp]: "finished (FlushDataBlock b) = finished b"
  by (simp add: FlushDataBlock_def Let_def)

lemma buffer_holds_last_Add:
  "buffer_holds_last b \<Longrightarrow> fst (Add b key val) \<and> buffer_holds_last (snd (Add b key val))"
  by (auto simp: buffer_holds_last_def Add_def Let_def)

lemma buffer_holds_last_AddAll:
  "buffer_holds_last b \<Longrightarrow> buffer_holds_last (AddAll b kvs)"
proof (induction kvs arbitrary: b)
  case Nil
  then show ?case by simp
next
  case (Cons kv kvs)
  obtain key val where kv: "kv = (key, val)"
    by (cases kv)
  from buffer_holds_last_Add [OF Cons.prems, of key val]
  have "buffer_holds_last (snd (Add b key val))"
    by simp
  from Cons.IH [OF this] show ?case
    by (simp add: kv)
qed

lemma order_check_never_fires:
  "fst (Add (AddAll (SSTableBuilder_new True) kvs) key val)"
proof -
  have "buffer_holds_last (SSTableBuilder_new True)"
    by (simp add: buffer_holds_last_def SSTableBuilder_new_def ofstream_open_def)
  then have "buffer_holds_last (AddAll (SSTableBuilder_new True) kvs)"
    by (rule buffer_holds_last_AddAll)
  then show ?thesis
    using buffer_holds_last_Add by blast
qed

text \<open>
  The two parts of the claim that the code does satisfy: a key greater than the last one
  is accepted, and a call that fails leaves the builder, and with it the bytes written,
  unchanged.
\<close>

lemma Add_accepts_greater_key:
  "\<not> finished b \<Longrightarrow> \<not> os_fail (ofs b) \<Longrightarrow> last_key_in_block b < key \<Longrightarrow> fst (Add b key val)"
  by (auto simp: Add_def Let_def)

lemma Add_failure_keeps_builder:
  "\<not> fst (Add b key val) \<Longrightarrow> snd (Add b key val) = b"
  by (auto simp: Add_def Let_def)

section \<open>Splitting into blocks\<close>




text \<open>
  Claim C9, as stated: every \<^verbatim>\<open>Add\<close> keeps the buffer at 128 bytes at most or at one
  record. It does not hold for a record of 2^32 bytes or more: the record of 2^32 bytes
  above joins the record (a, 1) in the buffer, which then has more than 128 bytes and
  decodes as the record (a, 1) followed by further bytes.
\<close>

theorem huge_record_breaks_block_invariant:
  "block_invariant (snd (Add (SSTableBuilder_new True) [97] [49])) \<and>
   \<not> block_invariant (snd (Add (snd (Add (SSTableBuilder_new True) [97] [49])) [98]
                               (replicate 4294967287 0)))"
  unfolding Add_huge
  by (simp add: Add_a1 block_invariant_def one_record_def readKV_def dec_u32_def
      DATA_BLOCK_SIZE_THRESHOLD_def)

lemma block_invariant_Add:
  assumes "8 + length key + length val < 4294967296" and "block_invariant b"
  shows "block_invariant (snd (Add b key val))"
proof (cases "fst (Add b key val)")
  case False
  then have "snd (Add b key val) = b"
    by (auto simp: Add_def Let_def split: if_splits)
  then show ?thesis
    using assms by simp
next
  case True
  show ?thesis
  proof (cases "cur_data_block b \<noteq> [] \<and>
      length (cur_data_block b) + (8 + length key + length val) \<le> DATA_BLOCK_SIZE_THRESHOLD")
    case True
    then have "cur_data_block (snd (Add b key val)) = writeKV (cur_data_block b) key val
        \<or> snd (Add b key val) = b"
      using assms(1) by (auto simp: Add_def Let_def unat_getEntrySize)
    then show ?thesis
      using True assms(2) by (auto simp: block_invariant_def)
  next
    case False
    then have "cur_data_block (snd (Add b key val)) = writeKV [] key val
        \<or> snd (Add b key val) = b"
      using assms(1) by (auto simp: Add_def Let_def unat_getEntrySize)
    then show ?thesis
      using assms by (auto simp: block_invariant_def one_record_writeKV)
  qed
qed

text \<open>
  Claim C9, amended. The buffer of a new builder is within the bound, and every \<^verbatim>\<open>Add\<close>
  of a record whose encoded size is below 2^32 keeps it there: at most 128 bytes, or
  one record. No size makes \<^verbatim>\<open>Add\<close> fail: on a builder that is neither finished nor
  failed it succeeds whenever the last key is empty or the key is greater than the last
  key, whatever the sizes of the key and the value. A record added to an empty buffer is
  the whole buffer, whatever its size, and the next flush writes it as one block with its
  own index entry.
\<close>

theorem block_invariant_preserved:
  "block_invariant (SSTableBuilder_new can_open) \<and>
   (8 + length key + length val < 4294967296 \<and> block_invariant b
      \<longrightarrow> block_invariant (snd (Add b key val))) \<and>
   (\<not> finished b \<and> \<not> os_fail (ofs b) \<and>
    (last_key_in_block b = [] \<or> last_key_in_block b < key)
      \<longrightarrow> fst (Add b key val)) \<and>
   (\<not> finished b \<and> \<not> os_fail (ofs b) \<and> cur_data_block b = [] \<and> fst (Add b key val)
      \<longrightarrow> cur_data_block (snd (Add b key val)) = writeKV [] key val \<and>
          length (writeKV [] key val) = 8 + length key + length val \<and>
          os_data (ofs (FlushDataBlock (snd (Add b key val))))
            = os_data (ofs b) @ writeKV [] key val \<and>
          index_data (FlushDataBlock (snd (Add b key val)))
            = map_assign key
                \<lparr>h_offset = of_nat (length (os_data (ofs b))),
                 h_size = of_nat (length (writeKV [] key val))\<rparr> (index_data b))"
proof -
  have 1: "block_invariant (SSTableBuilder_new can_open)"
    by (simp add: block_invariant_def SSTableBuilder_new_def)
  have 2: "8 + length key + length val < 4294967296 \<and> block_invariant b
      \<longrightarrow> block_invariant (snd (Add b key val))"
    using block_invariant_Add by blast
  have 3: "\<not> finished b \<and> \<not> os_fail (ofs b) \<and>
    (last_key_in_block b = [] \<or> last_key_in_block b < key)
      \<longrightarrow> fst (Add b key val)"
    by (auto simp: Add_def Let_def)
  have 4: "\<not> finished b \<and> \<not> os_fail (ofs b) \<and> cur_data_block b = [] \<and> fst (Add b key val)
      \<longrightarrow> cur_data_block (snd (Add b key val)) = writeKV [] key val \<and>
          length (writeKV [] key val) = 8 + length key + length val \<and>
          os_data (ofs (FlushDataBlock (snd (Add b key val))))
            = os_data (ofs b) @ writeKV [] key val \<and>
          index_data (FlushDataBlock (snd (Add b key val)))
            = map_assign key
                \<lparr>h_offset = of_nat (length (os_data (ofs b))),
                 h_size = of_nat (length (writeKV [] key val))\<rparr> (index_data b)"
    by (auto simp: Add_def Let_def FlushDataBlock_def os_write_def os_tellp_def
        BlockHandle_init_def)
  from 1 2 3 4 show ?thesis
    by blast
qed

theorem block_invariant_preserved_witness:
  "block_invariant (snd (Add (SSTableBuilder_new True) [97] (replicate 200 0))) \<and>
   fst (Add (SSTableBuilder_new True) [97] (replicate 200 0)) \<and>
   length (cur_data_block (snd (Add (SSTableBuilder_new True) [97] (replicate 200 0)))) = 209 \<and>
   os_data (ofs (FlushDataBlock (snd (Add (SSTableBuilder_new True) [97] (replicate 200 0)))))
     = writeKV [] [97] (replicate 200 0) \<and>
   index_data (FlushDataBlock (snd (Add (SSTableBuilder_new True) [97] (replicate 200 0))))
     = [([97], \<lparr>h_offset = 0, h_size = 209\<rparr>)]"
proof -
  let ?b = "SSTableBuilder_new True"
  have h: "\<not> finished ?b \<and> \<not> os_fail (ofs ?b) \<and> cur_data_block ?b = [] \<and>
      last_key_in_block ?b = [] \<and> os_data (ofs ?b) = [] \<and> index_data ?b = []"
    by (simp add: SSTableBuilder_new_def ofstream_open_def)
  have s: "8 + length [97 :: byte] + length (replicate 200 (0 :: byte)) < 4294967296"
    by simp
  show ?thesis
    using block_invariant_preserved [of True "[97]" "replicate 200 0" ?b] h s
    by simp
qed

section \<open>The footer\<close>

lemma BlockHandle_update_all:
  "h\<lparr>h_offset := a, h_size := b\<rparr> = \<lparr>h_offset = a, h_size = b\<rparr>"
  by (cases h) simp

lemma BlockHandle_DecodeFrom_ok:
  "12 \<le> length input \<Longrightarrow>
   BlockHandle_DecodeFrom h input =
     (True, \<lparr>h_offset = dec_u64 (take 8 input), h_size = dec_u32 (take 4 (drop 8 input))\<rparr>,
      drop 12 input)"
  by (simp add: BlockHandle_DecodeFrom_def BlockHandle_update_all)

text \<open>
  Claim C5. \<^verbatim>\<open>Footer::DecodeFrom\<close> fails exactly when the input has fewer than 20 bytes
  or the 8 bytes at offset 12 are not the magic number 0xDEADBEEFCAFEF00D. When it fails
  the handle of the footer is the one it had before the call, nothing of the input in it;
  when it succeeds the handle is the offset in the first 8 bytes and the size in the next
  4 bytes.
\<close>

theorem Footer_DecodeFrom_fails_closed:
  "(\<not> fst (Footer_DecodeFrom f input) \<longleftrightarrow>
      length input < 20 \<or> dec_u64 (take 8 (drop 12 input)) \<noteq> 0xDEADBEEFCAFEF00D) \<and>
   index_block_handle (snd (Footer_DecodeFrom f input)) =
     (if fst (Footer_DecodeFrom f input)
      then \<lparr>h_offset = dec_u64 (take 8 input), h_size = dec_u32 (take 4 (drop 8 input))\<rparr>
      else index_block_handle f)"
  by (simp add: Footer_DecodeFrom_def BLOCK_HANDLE_SIZE_def SSTABLE_MAGIC_NUMBER_def
      BlockHandle_DecodeFrom_ok Let_def min_def drop_take)

theorem Footer_DecodeFrom_fails_closed_witness:
  "fst (Footer_DecodeFrom Footer_init
          (Footer_EncodeTo \<lparr>index_block_handle = \<lparr>h_offset = 500, h_size = 70\<rparr>,
                            magic_number = SSTABLE_MAGIC_NUMBER\<rparr> [])) \<and>
   index_block_handle (snd (Footer_DecodeFrom Footer_init
          (Footer_EncodeTo \<lparr>index_block_handle = \<lparr>h_offset = 500, h_size = 70\<rparr>,
                            magic_number = SSTABLE_MAGIC_NUMBER\<rparr> [])))
     = \<lparr>h_offset = 500, h_size = 70\<rparr> \<and>
   \<not> fst (Footer_DecodeFrom Footer_init
          (Footer_EncodeTo \<lparr>index_block_handle = \<lparr>h_offset = 500, h_size = 70\<rparr>,
                            magic_number = SSTABLE_MAGIC_NUMBER + 1\<rparr> [])) \<and>
   index_block_handle (snd (Footer_DecodeFrom Footer_init
          (Footer_EncodeTo \<lparr>index_block_handle = \<lparr>h_offset = 500, h_size = 70\<rparr>,
                            magic_number = SSTABLE_MAGIC_NUMBER + 1\<rparr> [])))
     = \<lparr>h_offset = 0, h_size = 0\<rparr> \<and>
   \<not> fst (Footer_DecodeFrom Footer_init (replicate 19 0))"
  using Footer_DecodeFrom_fails_closed [of Footer_init
          "Footer_EncodeTo \<lparr>index_block_handle = \<lparr>h_offset = 500, h_size = 70\<rparr>,
                            magic_number = SSTABLE_MAGIC_NUMBER\<rparr> []"]
    Footer_DecodeFrom_fails_closed [of Footer_init
          "Footer_EncodeTo \<lparr>index_block_handle = \<lparr>h_offset = 500, h_size = 70\<rparr>,
                            magic_number = SSTABLE_MAGIC_NUMBER + 1\<rparr> []"]
    Footer_DecodeFrom_fails_closed [of Footer_init "replicate 19 0"]
  by (simp add: Footer_EncodeTo_def BlockHandle_EncodeTo_def SSTABLE_MAGIC_NUMBER_def
      Footer_init_def BlockHandle_init_def)

section \<open>A builder that is finished or could not open its file\<close>

text \<open>
  Claim C8. After a successful \<^verbatim>\<open>Finish\<close>, and on a builder whose file could not be
  opened (which reports itself as not open), \<^verbatim>\<open>Add\<close> and \<^verbatim>\<open>Finish\<close> return failure and
  leave the builder as it was, the bytes of the file included; the builder being
  unchanged, the same holds for every later call.
\<close>

theorem Add_Finish_rejected_when_closed:
  "(fst (Finish b) \<longrightarrow>
      Add (snd (Finish b)) key val = (False, snd (Finish b)) \<and>
      Finish (snd (Finish b)) = (False, snd (Finish b))) \<and>
   \<not> is_open (SSTableBuilder_new False) \<and>
   Add (SSTableBuilder_new False) key val = (False, SSTableBuilder_new False) \<and>
   Finish (SSTableBuilder_new False) = (False, SSTableBuilder_new False)"
  by (simp add: Finish_def Add_def Let_def SSTableBuilder_new_def ofstream_open_def is_open_def)

theorem Add_Finish_rejected_when_closed_witness:
  "fst (Finish (SSTableBuilder_new True)) \<and>
   Add (snd (Finish (SSTableBuilder_new True))) [97] [49]
     = (False, snd (Finish (SSTableBuilder_new True))) \<and>
   Finish (snd (Finish (SSTableBuilder_new True)))
     = (False, snd (Finish (SSTableBuilder_new True)))"
  using Add_Finish_rejected_when_closed [of "SSTableBuilder_new True" "[97]" "[49]"]
  by (simp add: Finish_def SSTableBuilder_new_def ofstream_open_def Let_def)

section \<open>The table with no record\<close>

lemma empty_table_bytes: "empty_table = enc_u64 0 @ enc_u32 0 @ enc_u64 SSTABLE_MAGIC_NUMBER"
  by (simp add: empty_table_def Finish_new)

lemma Reader_empty_table:
  "SSTableReader_new (Some empty_table) =
     \<lparr>ifs = \<lparr>is_is_open = True, is_fail = False, is_data = empty_table, is_pos = 0,
              is_gcount = 0, is_reads = 2\<rparr>,
      footer = \<lparr>index_block_handle = \<lparr>h_offset = 0, h_size = 0\<rparr>,
                magic_number = SSTABLE_MAGIC_NUMBER\<rparr>,
      is_valid = True, rd_index_data = []\<rparr>"
  by (simp add: empty_table_bytes SSTableReader_new_def ifstream_open_def LoadIndex_def
      is_tellg_def is_seekg_def is_read_def FOOTER_SIZE_def BLOCK_HANDLE_SIZE_def Let_def
      Footer_DecodeFrom_def BlockHandle_DecodeFrom_ok Footer_init_def ReadDataBlock_def
      LoadIndex_loop.simps [of "[]"])

text \<open>
  Claim C10. \<^verbatim>\<open>Finish\<close> on a new builder, with no \<^verbatim>\<open>Add\<close> before it, succeeds and leaves
  a file of 20 bytes: the handle of an empty index block (offset 0, size 0) and the magic
  number. A reader opened on that file is valid, its footer holds that handle, its index
  has no entry, and every sequence of \<^verbatim>\<open>Get\<close> calls finds nothing and leaves the reader as
  it was, the count of reads included.
\<close>

theorem empty_table_ok:
  "fst (Finish (SSTableBuilder_new True)) \<and>
   length empty_table = 20 \<and>
   empty_table = enc_u64 0 @ enc_u32 0 @ enc_u64 SSTABLE_MAGIC_NUMBER \<and>
   is_valid (SSTableReader_new (Some empty_table)) \<and>
   index_block_handle (footer (SSTableReader_new (Some empty_table)))
     = \<lparr>h_offset = 0, h_size = 0\<rparr> \<and>
   rd_index_data (SSTableReader_new (Some empty_table)) = [] \<and>
   GetAll (SSTableReader_new (Some empty_table)) keys
     = (replicate (length keys) None, SSTableReader_new (Some empty_table))"
proof -
  have "GetAll (SSTableReader_new (Some empty_table)) keys
     = (replicate (length keys) None, SSTableReader_new (Some empty_table))"
    by (induction keys) (simp_all add: Reader_empty_table Get_def)
  moreover have "fst (Finish (SSTableBuilder_new True))"
    by (simp add: Finish_new)
  moreover have "length empty_table = 20"
    by (simp add: empty_table_bytes)
  ultimately show ?thesis
    using empty_table_bytes by (simp add: Reader_empty_table)
qed
theorem empty_table_ok_witness:
  "GetAll (SSTableReader_new (Some empty_table)) [[97], [], [255]]
     = ([None, None, None], SSTableReader_new (Some empty_table)) \<and>
   length empty_table = 20"
  using empty_table_ok [of "[[97], [], [255]]"] by simp

section \<open>A reader on a corrupt file\<close>

lemma Get_invalid: "\<not> is_valid r \<Longrightarrow> Get r key = (None, r)"
  by (simp add: Get_def)

lemma GetAll_invalid: "\<not> is_valid r \<Longrightarrow> GetAll r keys = (replicate (length keys) None, r)"
  by (induction keys) (simp_all add: Get_invalid)

lemma ReadDataBlock_is_valid:
  "ReadDataBlock r h = (res, r') \<Longrightarrow> is_valid r' = is_valid r"
  by (auto simp: ReadDataBlock_def Let_def split: prod.splits if_splits)

lemma LoadIndex_is_valid: "is_valid (snd (LoadIndex r)) = is_valid r"
  by (auto simp: LoadIndex_def Let_def split: prod.splits option.splits
      dest!: ReadDataBlock_is_valid)

lemma Reader_new_valid_iff:
  "is_valid (SSTableReader_new (Some content)) = fst (LoadIndex (Reader_init content))"
proof -
  have "is_valid (snd (LoadIndex (Reader_init content))) = False"
    by (simp add: LoadIndex_is_valid Reader_init_def)
  then show ?thesis
    by (cases "LoadIndex (Reader_init content)")
      (auto simp: SSTableReader_new_def Let_def ifstream_open_def Reader_init_def
        split: bool.splits)
qed

lemma LoadIndex_short:
  "length content < 20 \<Longrightarrow> \<not> fst (LoadIndex (Reader_init content))"
  by (simp add: LoadIndex_def Reader_init_def ifstream_open_def is_tellg_def FOOTER_SIZE_def
      BLOCK_HANDLE_SIZE_def)

lemma last_bytes:
  "20 \<le> length content \<Longrightarrow>
   take 8 (drop 12 (take 20 (drop (length content - 20) content)))
     = drop (length content - 8) content"
  by (simp add: drop_take)

lemma LoadIndex_bad_magic:
  assumes "20 \<le> length content"
    and "dec_u64 (drop (length content - 8) content) \<noteq> SSTABLE_MAGIC_NUMBER"
  shows "\<not> fst (LoadIndex (Reader_init content))"
proof -
  have "nat (int (length content) - 20) = length content - 20"
    by simp
  then show ?thesis
    using assms last_bytes [of content]
    by (simp add: LoadIndex_def Reader_init_def ifstream_open_def is_tellg_def FOOTER_SIZE_def
        BLOCK_HANDLE_SIZE_def is_seekg_def is_read_def Let_def Footer_DecodeFrom_def
        split: prod.splits)
qed

text \<open>
  Claim C4. A reader opened on a file of fewer than 20 bytes, or on a file whose last 8
  bytes are not the 8 bytes of the magic number, is invalid, whatever the rest of the
  file is (a finished table with a byte of the magic number changed, or cut below 20
  bytes, is such a file); and on an
  invalid reader every sequence of \<^verbatim>\<open>Get\<close> calls finds nothing and leaves the reader as it
  was: no seek and no read is issued (the count of reads is unchanged).
\<close>

theorem corrupt_table_invalid:
  "(length content < 20 \<or>
    drop (length content - 8) content \<noteq> enc_u64 SSTABLE_MAGIC_NUMBER
      \<longrightarrow> \<not> is_valid (SSTableReader_new (Some content))) \<and>
   (\<not> is_valid r \<longrightarrow> GetAll r keys = (replicate (length keys) None, r))"
proof -
  have "\<not> is_valid (SSTableReader_new (Some content))"
    if "20 \<le> length content"
      and "drop (length content - 8) content \<noteq> enc_u64 SSTABLE_MAGIC_NUMBER"
  proof -
    have "length (drop (length content - 8) content) = 8"
      using that(1) by simp
    then have "enc_u64 (dec_u64 (drop (length content - 8) content))
        = drop (length content - 8) content"
      by (rule enc_dec_u64)
    then have "dec_u64 (drop (length content - 8) content) \<noteq> SSTABLE_MAGIC_NUMBER"
      using that(2) by auto
    then show ?thesis
      using LoadIndex_bad_magic [OF that(1)] by (simp add: Reader_new_valid_iff)
  qed
  then show ?thesis
    using LoadIndex_short [of content] GetAll_invalid [of r keys]
    by (cases "length content < 20") (auto simp: Reader_new_valid_iff)
qed

section \<open>The layout of a table built from ascending keys\<close>

lemma encode_block_Nil [simp]: "encode_block [] = []"
  by (simp add: encode_block_def)

lemma encode_block_Cons [simp]:
  "encode_block ((key, val) # recs) = writeKV [] key val @ encode_block recs"
  by (simp add: encode_block_def)

lemma encode_block_append [simp]:
  "encode_block (xs @ ys) = encode_block xs @ encode_block ys"
  by (simp add: encode_block_def)

lemma encode_block_empty_iff [simp]: "encode_block recs = [] \<longleftrightarrow> recs = []"
  by (cases recs) auto

lemma records_ok_Cons [simp]:
  "records_ok ((key, val) # recs) \<longleftrightarrow>
     8 + length key + length val < 4294967296 \<and> records_ok recs"
  by (simp add: records_ok_def)

lemma records_ok_Nil [simp]: "records_ok []"
  by (simp add: records_ok_def)

lemma records_ok_append [simp]:
  "records_ok (xs @ ys) \<longleftrightarrow> records_ok xs \<and> records_ok ys"
  by (auto simp: records_ok_def)

lemma FindInBlock_encode_block:
  "records_ok recs \<Longrightarrow> FindInBlock (encode_block recs) key = scan recs key"
proof (induction recs)
  case Nil
  show ?case
    by (simp add: FindInBlock.simps [of "[]"])
next
  case (Cons r recs)
  obtain k v where r: "r = (k, v)"
    by (cases r)
  from Cons.prems have ok: "length k < 4294967296" "length v < 4294967296" "records_ok recs"
    by (auto simp: r)
  have rd: "readKV (writeKV [] k v @ encode_block recs) = Some (k, v, encode_block recs)"
    using ok by (simp add: readKV_writeKV)
  show ?case
    using Cons.IH [OF ok(3)] rd
    by (subst FindInBlock.simps) (simp add: r)
qed

lemma scan_map_of:
  "sorted_wrt (<) (map fst recs) \<Longrightarrow> scan recs key = map_of recs key"
proof (induction recs)
  case Nil
  show ?case by simp
next
  case (Cons r recs)
  obtain k v where r: "r = (k, v)"
    by (cases r)
  from Cons.prems have gt: "\<forall>k' \<in> fst ` set recs. k < k'" and s: "sorted_wrt (<) (map fst recs)"
    by (auto simp: r)
  show ?case
  proof (cases "k = key")
    case True
    then show ?thesis by (simp add: r)
  next
    case False
    show ?thesis
    proof (cases "key < k")
      case True
      then have "key \<notin> fst ` set recs"
        using gt by auto
      then have "map_of recs key = None"
        by (simp add: map_of_eq_None_iff)
      then show ?thesis
        using True False by (simp add: r)
    next
      case gtr: False
      then show ?thesis
        using False Cons.IH [OF s] by (simp add: r)
    qed
  qed
qed

lemma encode_blocks_simps [simp]:
  "encode_blocks [] = []"
  "encode_blocks (blk # blocks) = encode_block blk @ encode_blocks blocks"
  "encode_blocks (xs @ ys) = encode_blocks xs @ encode_blocks ys"
  by (simp_all add: encode_blocks_def)

lemma encode_blocks_concat: "encode_blocks blocks = encode_block (concat blocks)"
  by (induction blocks) simp_all

lemma index_of_append:
  "index_of off (xs @ ys) = index_of off xs @ index_of (off + length (encode_blocks xs)) ys"
  by (induction xs arbitrary: off) (simp_all add: add.assoc)

lemma map_fst_index_of: "map fst (index_of off blocks) = map (\<lambda>blk. fst (last blk)) blocks"
  by (induction blocks arbitrary: off) simp_all

lemma lower_bound_index_of:
  "lower_bound (index_of off blocks) key =
     map_option (\<lambda>(pos, blk). (fst (last blk),
         \<lparr>h_offset = of_nat pos, h_size = of_nat (length (encode_block blk))\<rparr>))
       (find_block blocks key off)"
  by (induction blocks arbitrary: off) simp_all

lemma find_block_Some:
  "find_block blocks key off = Some (pos, blk) \<Longrightarrow>
     off \<le> pos \<and> pos + length (encode_block blk) \<le> off + length (encode_blocks blocks) \<and>
     take (length (encode_block blk)) (drop (pos - off) (encode_blocks blocks @ rest))
       = encode_block blk \<and>
     blk \<in> set blocks"
proof (induction blocks arbitrary: off)
  case Nil
  then show ?case by simp
next
  case (Cons b blocks)
  show ?case
  proof (cases "fst (last b) < key")
    case True
    with Cons.prems have f: "find_block blocks key (off + length (encode_block b)) = Some (pos, blk)"
      by simp
    from Cons.IH [OF f] have
      1: "off + length (encode_block b) \<le> pos" and
      2: "pos + length (encode_block blk)
            \<le> off + length (encode_block b) + length (encode_blocks blocks)" and
      3: "take (length (encode_block blk))
            (drop (pos - (off + length (encode_block b))) (encode_blocks blocks @ rest))
          = encode_block blk" and
      4: "blk \<in> set blocks"
      by auto
    have "drop (pos - off) (encode_blocks (b # blocks) @ rest)
        = drop (pos - (off + length (encode_block b))) (encode_blocks blocks @ rest)"
      using 1 by simp
    then show ?thesis
      using 1 2 3 4 by simp
  next
    case False
    with Cons.prems have "pos = off" "blk = b"
      by simp_all
    then show ?thesis
      by simp
  qed
qed

lemma map_of_None_less:
  fixes recs :: "kv list"
  shows "\<forall>k \<in> fst ` set recs. k < key \<Longrightarrow> map_of recs key = None"
  by (force simp: map_of_eq_None_iff)

lemma map_of_None_greater:
  fixes recs :: "kv list"
  shows "\<forall>k \<in> fst ` set recs. key < k \<Longrightarrow> map_of recs key = None"
  by (force simp: map_of_eq_None_iff)

lemma sorted_last_max:
  fixes blk :: "kv list"
  assumes "sorted_wrt (<) (map fst blk)" and "blk \<noteq> []"
  shows "\<forall>k \<in> fst ` set blk. k \<le> fst (last blk)"
proof -
  obtain xs x where blk: "blk = xs @ [x]"
    using assms(2) by (metis append_butlast_last_id)
  with assms(1) show ?thesis
    by (auto simp: sorted_wrt_append less_imp_le)
qed

lemma lookup_blocks:
  assumes "sorted_wrt (<) (map fst (concat blocks))" and "nonempty_blocks blocks"
  shows "(case find_block blocks key off of None \<Rightarrow> None | Some (pos, blk) \<Rightarrow> scan blk key)
           = map_of (concat blocks) key"
  using assms
proof (induction blocks arbitrary: off)
  case Nil
  show ?case by simp
next
  case (Cons b blocks)
  from Cons.prems have sb: "sorted_wrt (<) (map fst b)"
    and sr: "sorted_wrt (<) (map fst (concat blocks))"
    and cross: "\<forall>x \<in> fst ` set b. \<forall>y \<in> fst ` set (concat blocks). x < y"
    and ne: "b \<noteq> []" and ner: "nonempty_blocks blocks"
    by (auto simp: sorted_wrt_append nonempty_blocks_def)
  have lastin: "fst (last b) \<in> fst ` set b"
    using ne by simp
  have mx: "\<forall>k \<in> fst ` set b. k \<le> fst (last b)"
    using sorted_last_max [OF sb ne] .
  show ?case
  proof (cases "fst (last b) < key")
    case True
    then have "\<forall>k \<in> fst ` set b. k < key"
      using mx by auto
    then have "map_of b key = None"
      by (rule map_of_None_less)
    then show ?thesis
      using True Cons.IH [OF sr ner] by (simp add: map_add_def)
  next
    case False
    have "\<forall>y \<in> fst ` set (concat blocks). key < y"
    proof
      fix y
      assume y: "y \<in> fst ` set (concat blocks)"
      have "key \<le> fst (last b)"
        using False by simp
      moreover have "fst (last b) < y"
        using cross lastin y by blast
      ultimately show "key < y"
        by (rule le_less_trans)
    qed
    then have "map_of (concat blocks) key = None"
      by (rule map_of_None_greater)
    then show ?thesis
      using False scan_map_of [OF sb, of key]
      by (simp add: map_add_def split: option.splits)
  qed
qed

lemma foldl_writeKV_index:
  "foldl (\<lambda>buffer (last_key, handle). writeKV buffer last_key (BlockHandle_EncodeTo handle []))
     acc m = acc @ encode_index m"
proof (induction m arbitrary: acc)
  case Nil
  show ?case by (simp add: encode_index_def)
next
  case (Cons e m)
  obtain k h where e: "e = (k, h)"
    by (cases e)
  show ?case
    using Cons.IH [of "writeKV acc k (BlockHandle_EncodeTo h [])"]
      writeKV_append [of acc k "BlockHandle_EncodeTo h []"]
    by (simp add: e encode_index_def)
qed

lemma index_block_buffer_eq: "index_block_buffer m = encode_index m"
  using foldl_writeKV_index [of "[]" m] by (simp add: index_block_buffer_def)

lemma encode_index_simps [simp]:
  "encode_index [] = []"
  "encode_index ((key, handle) # m)
     = writeKV [] key (BlockHandle_EncodeTo handle []) @ encode_index m"
  by (simp_all add: encode_index_def)

lemma length_BlockHandle_EncodeTo [simp]:
  "length (BlockHandle_EncodeTo h dst) = length dst + 12"
  by (simp add: BlockHandle_EncodeTo_def)

lemma BlockHandle_DecodeFrom_EncodeTo:
  "BlockHandle_DecodeFrom h0 (BlockHandle_EncodeTo h []) = (True, h, [])"
  by (simp add: BlockHandle_DecodeFrom_ok BlockHandle_EncodeTo_def)

lemma map_assign_append:
  "\<forall>k \<in> fst ` set m. k < key \<Longrightarrow> map_assign key handle m = m @ [(key, handle)]"
  by (induction m) auto

lemma LoadIndex_loop_encode_index:
  assumes "\<forall>k \<in> fst ` set m2. length k < 4294967296"
    and "sorted_wrt (<) (map fst (m1 @ m2))"
  shows "LoadIndex_loop (encode_index m2) m1 = (True, m1 @ m2)"
  using assms
proof (induction m2 arbitrary: m1)
  case Nil
  show ?case
    by (simp add: LoadIndex_loop.simps [of "[]"])
next
  case (Cons e m2)
  obtain k h where e: "e = (k, h)"
    by (cases e)
  from Cons.prems have lk: "length k < 4294967296"
    and lr: "\<forall>k \<in> fst ` set m2. length k < 4294967296"
    and lt: "\<forall>k' \<in> fst ` set m1. k' < k"
    and s: "sorted_wrt (<) (map fst ((m1 @ [(k, h)]) @ m2))"
    by (auto simp: e sorted_wrt_append)
  have rd: "readKV (writeKV [] k (BlockHandle_EncodeTo h []) @ encode_index m2)
      = Some (k, BlockHandle_EncodeTo h [], encode_index m2)"
    using lk by (simp add: readKV_writeKV)
  have ne: "writeKV [] k (BlockHandle_EncodeTo h []) @ encode_index m2 \<noteq> []"
    by simp
  show ?case
    using Cons.IH [OF lr s] rd ne map_assign_append [OF lt, of h]
    by (subst LoadIndex_loop.simps) (simp add: e BlockHandle_DecodeFrom_EncodeTo)
qed

lemma builder_inv_new: "builder_inv [] [] (SSTableBuilder_new True)"
  by (simp add: builder_inv_def SSTableBuilder_new_def ofstream_open_def nonempty_blocks_def)

lemma index_keys_less:
  assumes "sorted_wrt (<) (map fst (concat blocks @ cur))" and "nonempty_blocks blocks"
    and "cur \<noteq> []"
  shows "\<forall>k \<in> fst ` set (index_of off blocks). k < fst (last cur)"
proof
  fix k
  assume "k \<in> fst ` set (index_of off blocks)"
  then have "k \<in> set (map fst (index_of off blocks))"
    by simp
  then obtain blk where blk: "blk \<in> set blocks" and k: "k = fst (last blk)"
    by (auto simp: map_fst_index_of)
  from blk assms(2) have "blk \<noteq> []"
    by (auto simp: nonempty_blocks_def)
  then have "last blk \<in> set blk"
    by simp
  then have 1: "k \<in> fst ` set (concat blocks)"
    using blk k by auto
  have 2: "fst (last cur) \<in> fst ` set cur"
    using assms(3) by simp
  from assms(1) have "\<forall>x \<in> fst ` set (concat blocks). \<forall>y \<in> fst ` set cur. x < y"
    by (auto simp: sorted_wrt_append)
  with 1 2 show "k < fst (last cur)"
    by blast
qed

lemma Add_step:
  assumes inv: "builder_inv blocks cur b"
    and gt: "\<forall>k \<in> fst ` set (concat blocks @ cur). k < key"
  shows "fst (Add b key val) \<and>
         builder_inv (fst (blocks_step (blocks, cur) (key, val)))
           (snd (blocks_step (blocks, cur) (key, val))) (snd (Add b key val))"
proof (cases "cur = []")
  case True
  with inv have "blocks = []" "last_key_in_block b = []" "cur_data_block b = []"
    "\<not> finished b" "\<not> os_fail (ofs b)" "os_data (ofs b) = []" "index_data b = []"
    by (auto simp: builder_inv_def)
  then show ?thesis
    using True by (simp add: Add_def Let_def builder_inv_def os_tellp_def nonempty_blocks_def)
next
  case False
  from inv False have st: "\<not> finished b" "\<not> os_fail (ofs b)"
    "os_data (ofs b) = encode_blocks blocks" "index_data b = index_of 0 blocks"
    "cur_data_block b = encode_block cur"
    "cur_data_block_offset b = of_nat (length (encode_blocks blocks))"
    "last_key_in_block b = fst (last cur)" "nonempty_blocks blocks"
    "sorted_wrt (<) (map fst (concat blocks @ cur))"
    by (auto simp: builder_inv_def)
  have ne: "encode_block cur \<noteq> []"
    using False by simp
  have srt: "sorted_wrt (<) (map fst (concat blocks @ cur @ [(key, val)]))"
    using st(9) gt by (auto simp: sorted_wrt_append)
  show ?thesis
  proof (cases "length (encode_block cur) + unat (getEntrySize key val)
      > DATA_BLOCK_SIZE_THRESHOLD")
    case True
    have ma: "map_assign (fst (last cur))
        \<lparr>h_offset = of_nat (length (encode_blocks blocks)),
         h_size = of_nat (length (encode_block cur))\<rparr> (index_of 0 blocks)
        = index_of 0 (blocks @ [cur])"
      using map_assign_append [OF index_keys_less [OF st(9) st(8) False, of 0]]
      by (simp add: index_of_append)
    have fl: "FlushDataBlock b =
        b\<lparr>ofs := (ofs b)\<lparr>os_data := encode_blocks (blocks @ [cur])\<rparr>,
          index_data := index_of 0 (blocks @ [cur]), cur_data_block := []\<rparr>"
      using st ne ma
      by (simp add: FlushDataBlock_def Let_def os_write_def BlockHandle_init_def)
    have "snd (Add b key val) =
        b\<lparr>ofs := (ofs b)\<lparr>os_data := encode_blocks (blocks @ [cur])\<rparr>,
          index_data := index_of 0 (blocks @ [cur]),
          cur_data_block_offset := of_nat (length (encode_blocks (blocks @ [cur]))),
          cur_data_block := writeKV [] key val, last_key_in_block := key\<rparr>
        \<and> fst (Add b key val)"
      using st ne True by (simp add: Add_def Let_def fl os_tellp_def)
    then show ?thesis
      using True False st srt
      by (simp add: builder_inv_def nonempty_blocks_def)
  next
    case nov: False
    have "snd (Add b key val) =
        b\<lparr>cur_data_block := writeKV (encode_block cur) key val, last_key_in_block := key\<rparr>
        \<and> fst (Add b key val)"
      using st ne nov by (simp add: Add_def Let_def)
    then show ?thesis
      using nov False st srt writeKV_append [of "encode_block cur" key val]
      by (simp add: builder_inv_def)
  qed
qed

lemma blocks_step_concat:
  "concat (fst (blocks_step (blocks, cur) kv)) @ snd (blocks_step (blocks, cur) kv)
     = concat blocks @ cur @ [kv]"
  by (cases kv) simp

lemma AddAll_inv:
  assumes "builder_inv blocks cur b"
    and "sorted_wrt (<) (map fst (concat blocks @ cur @ kvs))"
  shows "builder_inv (fst (foldl blocks_step (blocks, cur) kvs))
           (snd (foldl blocks_step (blocks, cur) kvs)) (AddAll b kvs)"
  using assms
proof (induction kvs arbitrary: blocks cur b)
  case Nil
  then show ?case by simp
next
  case (Cons kv kvs)
  obtain key val where kv: "kv = (key, val)"
    by (cases kv)
  let ?p = "blocks_step (blocks, cur) (key, val)"
  from Cons.prems(2) have gt: "\<forall>k \<in> fst ` set (concat blocks @ cur). k < key"
    by (auto simp: kv sorted_wrt_append)
  from Add_step [OF Cons.prems(1) gt, of val]
  have inv': "builder_inv (fst ?p) (snd ?p) (snd (Add b key val))"
    by simp
  have "(concat (fst ?p) @ snd ?p) @ kvs = (concat blocks @ cur @ [(key, val)]) @ kvs"
    by (simp only: blocks_step_concat)
  then have eq: "concat (fst ?p) @ snd ?p @ kvs = concat blocks @ cur @ kv # kvs"
    by (simp only: append_assoc append_Cons append_Nil kv)
  have srt: "sorted_wrt (<) (map fst (concat (fst ?p) @ snd ?p @ kvs))"
    unfolding eq using Cons.prems(2) .
  from Cons.IH [OF inv' srt] show ?case
    by (simp add: kv)
qed

lemma AddAll_layout:
  "sorted_wrt (<) (map fst kvs) \<Longrightarrow>
   builder_inv (fst (layout kvs)) (snd (layout kvs)) (AddAll (SSTableBuilder_new True) kvs)"
  using AddAll_inv [OF builder_inv_new, of kvs] by (simp add: layout_def)

lemma foldl_blocks_step_snoc:
  "foldl blocks_step p (kvs @ [kv]) = blocks_step (foldl blocks_step p kvs) kv"
  by simp

lemma sorted_take:
  fixes kvs :: "kv list"
  assumes "sorted_wrt (<) (map fst kvs)" and "i < length kvs"
  shows "sorted_wrt (<) (map fst (take i kvs)) \<and>
         (\<forall>k \<in> fst ` set (take i kvs). k < fst (kvs ! i))"
proof -
  have "kvs = take i kvs @ kvs ! i # drop (Suc i) kvs"
    using assms(2) by (simp add: id_take_nth_drop)
  then have "sorted_wrt (<) (map fst (take i kvs @ kvs ! i # drop (Suc i) kvs))"
    using assms(1) by simp
  then show ?thesis
    by (auto simp: sorted_wrt_append)
qed

lemma layout_concat: "concat (fst (layout kvs)) @ snd (layout kvs) = kvs"
proof (induction kvs rule: rev_induct)
  case Nil
  show ?case by (simp add: layout_def)
next
  case (snoc kv kvs)
  show ?case
    using snoc blocks_step_concat [of "fst (layout kvs)" "snd (layout kvs)" kv]
    by (simp add: layout_def)
qed

lemma Add_succeeds:
  assumes "sorted_wrt (<) (map fst kvs)" and "i < length kvs"
  shows "fst (Add (AddAll (SSTableBuilder_new True) (take i kvs)) (fst (kvs ! i)) (snd (kvs ! i)))"
proof -
  let ?pre = "take i kvs"
  from sorted_take [OF assms] have s: "sorted_wrt (<) (map fst ?pre)"
    and gt: "\<forall>k \<in> fst ` set ?pre. k < fst (kvs ! i)"
    by auto
  have inv: "builder_inv (fst (layout ?pre)) (snd (layout ?pre))
      (AddAll (SSTableBuilder_new True) ?pre)"
    using AddAll_layout [OF s] .
  have "\<forall>k \<in> fst ` set (concat (fst (layout ?pre)) @ snd (layout ?pre)). k < fst (kvs ! i)"
    using gt by (simp only: layout_concat)
  from Add_step [OF inv this] show ?thesis
    by simp
qed

lemma Finish_inv:
  assumes "builder_inv blocks cur b"
  shows "fst (Finish b) \<and>
         os_data (ofs (snd (Finish b))) = table_file (final_blocks (blocks, cur)) \<and>
         index_data (snd (Finish b)) = index_of 0 (final_blocks (blocks, cur))"
proof -
  from assms have st: "\<not> finished b" "\<not> os_fail (ofs b)"
    "os_data (ofs b) = encode_blocks blocks" "index_data b = index_of 0 blocks"
    "cur_data_block b = encode_block cur" "nonempty_blocks blocks"
    "sorted_wrt (<) (map fst (concat blocks @ cur))"
    by (auto simp: builder_inv_def)
  let ?B = "final_blocks (blocks, cur)"
  have fl: "FlushDataBlock b =
      b\<lparr>ofs := (ofs b)\<lparr>os_data := encode_blocks ?B\<rparr>,
        index_data := index_of 0 ?B, cur_data_block := []\<rparr>"
  proof (cases "cur = []")
    case True
    then show ?thesis
      using st by (simp add: FlushDataBlock_def final_blocks_def)
  next
    case False
    with assms have off: "cur_data_block_offset b = of_nat (length (encode_blocks blocks))"
      and lk: "last_key_in_block b = fst (last cur)"
      by (auto simp: builder_inv_def)
    have ma: "map_assign (fst (last cur))
        \<lparr>h_offset = of_nat (length (encode_blocks blocks)),
         h_size = of_nat (length (encode_block cur))\<rparr> (index_of 0 blocks)
        = index_of 0 (blocks @ [cur])"
      using map_assign_append [OF index_keys_less [OF st(7) st(6) False, of 0]]
      by (simp add: index_of_append)
    show ?thesis
      using st False off lk ma
      by (simp add: FlushDataBlock_def Let_def os_write_def BlockHandle_init_def
          final_blocks_def)
  qed
  show ?thesis
    using st
    by (simp add: Finish_def Let_def fl os_write_def os_tellp_def os_close_def
        index_block_buffer_eq Footer_EncodeTo_def BlockHandle_EncodeTo_def FOOTER_SIZE_def
        BLOCK_HANDLE_SIZE_def table_file_def)
qed

lemma sint_of_nat64: "n < 9223372036854775808 \<Longrightarrow> sint (of_nat n :: 64 word) = int n"
  by (simp add: signed_of_nat signed_take_bit_int_eq_self)

lemma ReadDataBlock_at:
  assumes "\<not> is_fail (ifs r)" and "pos < 9223372036854775808" and "n < 4294967296"
    and "pos + n \<le> length (is_data (ifs r))"
  shows "ReadDataBlock r \<lparr>h_offset = of_nat pos, h_size = of_nat n\<rparr> =
           (Some (take n (drop pos (is_data (ifs r)))),
            r\<lparr>ifs := (ifs r)\<lparr>is_pos := pos + n, is_gcount := n,
                               is_reads := is_reads (ifs r) + 1\<rparr>\<rparr>)"
  using assms
  by (auto simp: ReadDataBlock_def is_seekg_def is_read_def sint_of_nat64 unat_of_nat32 Let_def
      min_def)

lemma Footer_DecodeFrom_encoded:
  "Footer_DecodeFrom f (enc_u64 off @ enc_u32 sz @ enc_u64 SSTABLE_MAGIC_NUMBER) =
     (True, \<lparr>index_block_handle = \<lparr>h_offset = off, h_size = sz\<rparr>,
             magic_number = SSTABLE_MAGIC_NUMBER\<rparr>)"
  by (cases f) (simp add: Footer_DecodeFrom_def BLOCK_HANDLE_SIZE_def BlockHandle_DecodeFrom_ok)

lemma length_table_file:
  "length (table_file blocks)
     = length (encode_blocks blocks) + length (encode_index (index_of 0 blocks)) + 20"
  by (simp add: table_file_def)

lemma records_ok_D:
  "records_ok recs \<Longrightarrow> (key, val) \<in> set recs \<Longrightarrow>
   8 + length key + length val < 4294967296"
  by (auto simp: records_ok_def)

lemma last_in_concat:
  assumes "blk \<in> set blocks" and "nonempty_blocks blocks"
  shows "last blk \<in> set (concat blocks)"
proof -
  from assms have "blk \<noteq> []"
    by (auto simp: nonempty_blocks_def)
  then have "last blk \<in> set blk"
    by simp
  then show ?thesis
    using assms(1) by auto
qed

lemma sorted_index_keys:
  assumes "sorted_wrt (<) (map fst (concat blocks))" and "nonempty_blocks blocks"
  shows "sorted_wrt (<) (map (\<lambda>blk. fst (last blk)) blocks)"
  using assms
proof (induction blocks)
  case Nil
  show ?case by simp
next
  case (Cons b blocks)
  from Cons.prems have sr: "sorted_wrt (<) (map fst (concat blocks))"
    and cross: "\<forall>x \<in> fst ` set b. \<forall>y \<in> fst ` set (concat blocks). x < y"
    and ne: "b \<noteq> []" and ner: "nonempty_blocks blocks"
    by (auto simp: sorted_wrt_append nonempty_blocks_def)
  have "fst (last b) < fst (last blk)" if "blk \<in> set blocks" for blk
  proof -
    have "last blk \<in> set (concat blocks)"
      using that ner by (rule last_in_concat)
    moreover have "last b \<in> set b"
      using ne by simp
    ultimately show ?thesis
      using cross by blast
  qed
  then show ?case
    using Cons.IH [OF sr ner] by simp
qed

lemma index_key_lengths:
  assumes "records_ok (concat blocks)" and "nonempty_blocks blocks"
  shows "\<forall>k \<in> fst ` set (index_of off blocks). length k < 4294967296"
proof
  fix k
  assume "k \<in> fst ` set (index_of off blocks)"
  then have "k \<in> set (map fst (index_of off blocks))"
    by simp
  then obtain blk where blk: "blk \<in> set blocks" and k: "k = fst (last blk)"
    by (auto simp: map_fst_index_of)
  have "last blk \<in> set (concat blocks)"
    using blk assms(2) by (rule last_in_concat)
  then have "8 + length (fst (last blk)) + length (snd (last blk)) < 4294967296"
    using records_ok_D [OF assms(1), of "fst (last blk)" "snd (last blk)"] by simp
  then show "length k < 4294967296"
    using k by simp
qed

lemma LoadIndex_table:
  assumes "table_ok blocks"
  shows "LoadIndex (Reader_init (table_file blocks)) =
           (True,
            \<lparr>ifs = \<lparr>is_is_open = True, is_fail = False, is_data = table_file blocks,
                    is_pos = length (table_file blocks) - 20,
                    is_gcount = length (encode_index (index_of 0 blocks)), is_reads = 2\<rparr>,
             footer = \<lparr>index_block_handle =
                        \<lparr>h_offset = of_nat (length (encode_blocks blocks)),
                         h_size = of_nat (length (encode_index (index_of 0 blocks)))\<rparr>,
                       magic_number = SSTABLE_MAGIC_NUMBER\<rparr>,
             is_valid = False, rd_index_data = index_of 0 blocks\<rparr>)"
proof -
  let ?F = "table_file blocks"
  let ?D = "encode_blocks blocks"
  let ?I = "encode_index (index_of 0 blocks)"
  let ?foot = "enc_u64 (of_nat (length ?D)) @ enc_u32 (of_nat (length ?I))
      @ enc_u64 SSTABLE_MAGIC_NUMBER"
  from assms have ok: "nonempty_blocks blocks" "sorted_wrt (<) (map fst (concat blocks))"
    "records_ok (concat blocks)" "length ?I < 4294967296" "length ?F < 9223372036854775808"
    by (auto simp: table_ok_def)
  have F: "?F = ?D @ ?I @ ?foot"
    by (simp add: table_file_def)
  have len: "length ?F = length ?D + length ?I + 20"
    by (rule length_table_file)
  have foot: "take 20 (drop (length ?F - 20) ?F) = ?foot"
    by (simp add: F)
  have idx: "take (length ?I) (drop (length ?D) ?F) = ?I"
    by (simp add: F)
  have bd: "length ?D < 9223372036854775808" "length ?D + length ?I \<le> length ?F"
    using ok(5) len by simp_all
  have loop: "LoadIndex_loop ?I [] = (True, index_of 0 blocks)"
    using LoadIndex_loop_encode_index [of "index_of 0 blocks" "[]"]
      index_key_lengths [OF ok(3) ok(1), of 0] sorted_index_keys [OF ok(2) ok(1)]
    by (simp add: map_fst_index_of)
  have "nat (int (length ?F) - 20) = length ?F - 20"
    by simp
  then show ?thesis
    using len foot idx bd ok(4)
    by (simp add: LoadIndex_def Reader_init_def ifstream_open_def is_tellg_def is_seekg_def
        is_read_def FOOTER_SIZE_def BLOCK_HANDLE_SIZE_def Let_def Footer_DecodeFrom_encoded
        ReadDataBlock_at loop Footer_init_def)
qed

lemma Reader_new_table:
  assumes "table_ok blocks"
  shows "good_reader (table_file blocks) (index_of 0 blocks)
           (SSTableReader_new (Some (table_file blocks)))"
proof -
  have "SSTableReader_new (Some (table_file blocks)) =
      (case LoadIndex (Reader_init (table_file blocks)) of
         (False, r1) \<Rightarrow> r1\<lparr>ifs := is_close (ifs r1)\<rparr>
       | (True, r1) \<Rightarrow> r1\<lparr>is_valid := True\<rparr>)"
    by (simp add: SSTableReader_new_def Reader_init_def ifstream_open_def Let_def)
  then show ?thesis
    by (simp add: LoadIndex_table [OF assms] good_reader_def)
qed

lemma Get_table:
  assumes ok: "table_ok blocks"
    and good: "good_reader (table_file blocks) (index_of 0 blocks) r"
  shows "fst (Get r key) = map_of (concat blocks) key \<and>
         good_reader (table_file blocks) (index_of 0 blocks) (snd (Get r key))"
proof -
  let ?F = "table_file blocks"
  from ok have t: "nonempty_blocks blocks" "sorted_wrt (<) (map fst (concat blocks))"
    "records_ok (concat blocks)" "\<forall>blk \<in> set blocks. length (encode_block blk) < 4294967296"
    "length ?F < 9223372036854775808"
    by (auto simp: table_ok_def)
  from good have g: "is_valid r" "rd_index_data r = index_of 0 blocks" "\<not> is_fail (ifs r)"
    "is_data (ifs r) = ?F"
    by (auto simp: good_reader_def)
  have look: "(case find_block blocks key 0 of None \<Rightarrow> None | Some (pos, blk) \<Rightarrow> scan blk key)
      = map_of (concat blocks) key"
    using lookup_blocks [OF t(2) t(1)] .
  show ?thesis
  proof (cases "find_block blocks key 0")
    case None
    then have "Get r key = (None, r)"
      using g by (simp add: Get_def lower_bound_index_of)
    then show ?thesis
      using look None good by simp
  next
    case (Some p)
    obtain pos blk where p: "p = (pos, blk)"
      by (cases p)
    let ?rest = "encode_index (index_of 0 blocks) @
      enc_u64 (of_nat (length (encode_blocks blocks))) @
      enc_u32 (of_nat (length (encode_index (index_of 0 blocks)))) @
      enc_u64 SSTABLE_MAGIC_NUMBER"
    have F: "?F = encode_blocks blocks @ ?rest"
      by (simp add: table_file_def)
    from find_block_Some [of blocks key 0 pos blk ?rest] Some p
    have fb: "pos + length (encode_block blk) \<le> length (encode_blocks blocks)"
      "take (length (encode_block blk)) (drop pos ?F) = encode_block blk"
      "blk \<in> set blocks"
      by (auto simp: F)
    have small: "length (encode_block blk) < 4294967296"
      using t(4) fb(3) by blast
    have bd: "pos < 9223372036854775808" "pos + length (encode_block blk) \<le> length ?F"
      using fb(1) t(5) by (simp_all add: F)
    have rok: "records_ok blk"
      using t(3) fb(3) by (auto simp: records_ok_def)
    have lb: "lower_bound (rd_index_data r) key =
        Some (fst (last blk),
          \<lparr>h_offset = of_nat pos, h_size = of_nat (length (encode_block blk))\<rparr>)"
      using Some p g(2) by (simp add: lower_bound_index_of)
    have rd: "ReadDataBlock r
        \<lparr>h_offset = of_nat pos, h_size = of_nat (length (encode_block blk))\<rparr> =
        (Some (encode_block blk),
         r\<lparr>ifs := (ifs r)\<lparr>is_pos := pos + length (encode_block blk),
            is_gcount := length (encode_block blk), is_reads := is_reads (ifs r) + 1\<rparr>\<rparr>)"
      using ReadDataBlock_at [OF g(3) bd(1) small] bd(2) fb(2)
      by (simp add: g(4))
    have "Get r key =
        (scan blk key,
         r\<lparr>ifs := (ifs r)\<lparr>is_pos := pos + length (encode_block blk),
            is_gcount := length (encode_block blk), is_reads := is_reads (ifs r) + 1\<rparr>\<rparr>)"
      using g(1) by (simp add: Get_def lb rd FindInBlock_encode_block [OF rok])
    then show ?thesis
      using look Some p g by (simp add: good_reader_def)
  qed
qed

lemma GetAll_table:
  assumes ok: "table_ok blocks"
    and good: "good_reader (table_file blocks) (index_of 0 blocks) r"
  shows "fst (GetAll r keys) = map (map_of (concat blocks)) keys \<and>
         good_reader (table_file blocks) (index_of 0 blocks) (snd (GetAll r keys))"
  using good
proof (induction keys arbitrary: r)
  case Nil
  then show ?case by simp
next
  case (Cons key keys)
  from Get_table [OF ok Cons.prems, of key]
  have 1: "fst (Get r key) = map_of (concat blocks) key"
    and 2: "good_reader (table_file blocks) (index_of 0 blocks) (snd (Get r key))"
    by auto
  from Cons.IH [OF 2] 1 show ?case
    by (simp add: split_def Let_def)
qed

lemma blocks_step_small:
  assumes "\<forall>blk \<in> set blocks. length (encode_block blk) < 4294967296"
    and "length (encode_block cur) < 4294967296"
    and "8 + length key + length val < 4294967296"
  shows "(\<forall>blk \<in> set (fst (blocks_step (blocks, cur) (key, val))).
            length (encode_block blk) < 4294967296) \<and>
         length (encode_block (snd (blocks_step (blocks, cur) (key, val)))) < 4294967296"
  using assms by (auto simp: unat_getEntrySize DATA_BLOCK_SIZE_THRESHOLD_def)

lemma foldl_blocks_step_small:
  assumes "\<forall>blk \<in> set blocks. length (encode_block blk) < 4294967296"
    and "length (encode_block cur) < 4294967296"
    and "records_ok kvs"
  shows "(\<forall>blk \<in> set (fst (foldl blocks_step (blocks, cur) kvs)).
            length (encode_block blk) < 4294967296) \<and>
         length (encode_block (snd (foldl blocks_step (blocks, cur) kvs))) < 4294967296"
  using assms
proof (induction kvs arbitrary: blocks cur)
  case Nil
  then show ?case by simp
next
  case (Cons kv kvs)
  obtain key val where kv: "kv = (key, val)"
    by (cases kv)
  let ?p = "blocks_step (blocks, cur) (key, val)"
  from Cons.prems(3) have r: "8 + length key + length val < 4294967296" "records_ok kvs"
    by (simp_all add: kv)
  from blocks_step_small [OF Cons.prems(1) Cons.prems(2) r(1)]
  have 1: "\<forall>blk \<in> set (fst ?p). length (encode_block blk) < 4294967296"
    and 2: "length (encode_block (snd ?p)) < 4294967296"
    by blast+
  from Cons.IH [OF 1 2 r(2)] show ?case
    by (simp add: kv del: blocks_step.simps)
qed

lemma final_blocks_small:
  assumes "records_ok kvs"
  shows "\<forall>blk \<in> set (final_blocks (layout kvs)). length (encode_block blk) < 4294967296"
  using foldl_blocks_step_small [of "[]" "[]" kvs] assms
  by (auto simp: layout_def final_blocks_def)

lemma concat_final_blocks: "concat (final_blocks (layout kvs)) = kvs"
  using layout_concat [of kvs] by (auto simp: final_blocks_def)

lemma nonempty_final_blocks:
  assumes "sorted_wrt (<) (map fst kvs)"
  shows "nonempty_blocks (final_blocks (layout kvs))"
  using AddAll_layout [OF assms]
  by (auto simp: builder_inv_def final_blocks_def nonempty_blocks_def)

lemma build_table_file:
  assumes "sorted_wrt (<) (map fst kvs)"
  shows "fst (Finish (AddAll (SSTableBuilder_new True) kvs)) \<and>
         table_bytes kvs = table_file (final_blocks (layout kvs)) \<and>
         index_data (build_table kvs) = index_of 0 (final_blocks (layout kvs))"
  using Finish_inv [OF AddAll_layout [OF assms]]
  by (simp add: table_bytes_def build_table_def)

lemma table_ok_build:
  assumes "sorted_wrt (<) (map fst kvs)" and "records_ok kvs"
    and "length (index_block_buffer (index_data (build_table kvs))) < 4294967296"
    and "length (table_bytes kvs) < 9223372036854775808"
  shows "table_ok (final_blocks (layout kvs))"
  using assms build_table_file [OF assms(1)] nonempty_final_blocks [OF assms(1)]
    final_blocks_small [OF assms(2)]
  by (simp add: table_ok_def concat_final_blocks index_block_buffer_eq)

lemma table_lookup:
  assumes "sorted_wrt (<) (map fst kvs)" and "records_ok kvs"
    and "length (index_block_buffer (index_data (build_table kvs))) < 4294967296"
    and "length (table_bytes kvs) < 9223372036854775808"
  shows "is_valid (SSTableReader_new (Some (table_bytes kvs))) \<and>
         fst (Get (snd (GetAll (SSTableReader_new (Some (table_bytes kvs))) keys)) key)
           = map_of kvs key"
proof -
  let ?B = "final_blocks (layout kvs)"
  have ok: "table_ok ?B"
    using assms by (rule table_ok_build)
  have F: "table_bytes kvs = table_file ?B"
    using build_table_file [OF assms(1)] by simp
  have g0: "good_reader (table_file ?B) (index_of 0 ?B) (SSTableReader_new (Some (table_file ?B)))"
    using ok by (rule Reader_new_table)
  from GetAll_table [OF ok g0, of keys]
  have g1: "good_reader (table_file ?B) (index_of 0 ?B)
      (snd (GetAll (SSTableReader_new (Some (table_file ?B))) keys))"
    by simp
  from Get_table [OF ok g1, of key] g0 show ?thesis
    by (simp add: F concat_final_blocks good_reader_def)
qed

lemma sorted_keys_distinct:
  fixes kvs :: "kv list"
  shows "sorted_wrt (<) (map fst kvs) \<Longrightarrow> distinct (map fst kvs)"
  by (induction kvs) auto

lemma length_encode_block:
  "length (encode_block recs) = sum_list (map (\<lambda>(key, val). 8 + length key + length val) recs)"
  by (induction recs) auto

lemma elem_le_sum_list:
  fixes f :: "'a \<Rightarrow> nat"
  shows "x \<in> set xs \<Longrightarrow> f x \<le> sum_list (map f xs)"
  by (induction xs) auto

lemma last_key_le_sum:
  fixes blk :: "kv list"
  assumes "blk \<noteq> []"
  shows "20 + length (fst (last blk)) \<le> sum_list (map (\<lambda>(key, val). 20 + length key) blk)"
proof -
  have "last blk \<in> set blk"
    using assms by simp
  then have "(\<lambda>(key, val). 20 + length key) (last blk)
      \<le> sum_list (map (\<lambda>(key, val). 20 + length key) blk)"
    by (rule elem_le_sum_list)
  then show ?thesis
    by (simp add: split_def)
qed

lemma length_encode_index_le:
  assumes "nonempty_blocks blocks"
  shows "length (encode_index (index_of off blocks))
           \<le> sum_list (map (\<lambda>(key, val). 20 + length key) (concat blocks))"
  using assms
proof (induction blocks arbitrary: off)
  case Nil
  show ?case by simp
next
  case (Cons b blocks)
  from Cons.prems have ne: "b \<noteq> []" and ner: "nonempty_blocks blocks"
    by (auto simp: nonempty_blocks_def)
  show ?case
    using Cons.IH [OF ner, of "off + length (encode_block b)"] last_key_le_sum [OF ne]
    by simp
qed

lemma build_table_bounds:
  assumes "sorted_wrt (<) (map fst kvs)"
  shows "length (index_block_buffer (index_data (build_table kvs)))
           \<le> sum_list (map (\<lambda>(key, val). 20 + length key) kvs) \<and>
         length (table_bytes kvs)
           \<le> sum_list (map (\<lambda>(key, val). 8 + length key + length val) kvs)
             + sum_list (map (\<lambda>(key, val). 20 + length key) kvs) + 20"
proof -
  let ?B = "final_blocks (layout kvs)"
  have 1: "length (encode_index (index_of 0 ?B))
      \<le> sum_list (map (\<lambda>(key, val). 20 + length key) kvs)"
    using length_encode_index_le [OF nonempty_final_blocks [OF assms], of 0]
    by (simp add: concat_final_blocks)
  have 2: "length (encode_blocks ?B)
      = sum_list (map (\<lambda>(key, val). 8 + length key + length val) kvs)"
    by (simp add: encode_blocks_concat concat_final_blocks length_encode_block)
  show ?thesis
    using build_table_file [OF assms] 1 2
    by (simp add: index_block_buffer_eq length_table_file)
qed

lemma four_records_hyps:
  "sorted_wrt (<) (map fst four_records) \<and>
   (\<forall>(key, val) \<in> set four_records. 8 + length key + length val < 4294967296) \<and>
   length (index_block_buffer (index_data (build_table four_records))) < 4294967296 \<and>
   length (table_bytes four_records) < 9223372036854775808"
proof -
  have s: "sorted_wrt (<) (map fst four_records)"
    by (simp add: four_records_def)
  have r: "\<forall>(key, val) \<in> set four_records. 8 + length key + length val < 4294967296"
    by (simp add: four_records_def)
  have "sum_list (map (\<lambda>(key, val). 20 + length key) four_records) = 84"
    and "sum_list (map (\<lambda>(key, val). 8 + length key + length val) four_records) = 156"
    by (simp_all add: four_records_def)
  then show ?thesis
    using build_table_bounds [OF s] s r by simp
qed

lemma four_records_index:
  "map fst (index_data (build_table four_records)) = [[99], [100]]"
proof -
  have s: "sorted_wrt (<) (map fst four_records)"
    by (simp add: four_records_def)
  have "final_blocks (layout four_records) =
      [[([97], replicate 30 1), ([98], replicate 30 2), ([99], replicate 30 3)],
       [([100], replicate 30 4)]]"
    by (simp add: four_records_def layout_def final_blocks_def unat_getEntrySize
        DATA_BLOCK_SIZE_THRESHOLD_def)
  then show ?thesis
    using build_table_file [OF s] by simp
qed

lemma Reader_new_footer:
  assumes F: "content = body @ enc_u64 (of_nat p) @ enc_u32 (of_nat n)
                @ enc_u64 SSTABLE_MAGIC_NUMBER"
    and p: "p < 9223372036854775808" and n: "n < 4294967296"
    and pn: "p + n \<le> length content"
    and idx: "take n (drop p content) = encode_index m"
    and keys: "\<forall>k \<in> fst ` set m. length k < 4294967296"
    and srt: "sorted_wrt (<) (map fst m)"
  shows "good_reader content m (SSTableReader_new (Some content))"
proof -
  let ?foot = "enc_u64 (of_nat p) @ enc_u32 (of_nat n) @ enc_u64 SSTABLE_MAGIC_NUMBER"
  have len: "length content = length body + 20"
    by (simp add: F)
  have foot: "take 20 (drop (length content - 20) content) = ?foot"
    by (simp add: F)
  have loop: "LoadIndex_loop (encode_index m) [] = (True, m)"
    using LoadIndex_loop_encode_index [of m "[]"] keys srt by simp
  have "nat (int (length content) - 20) = length content - 20"
    by simp
  then have "LoadIndex (Reader_init content) =
      (True,
       \<lparr>ifs = \<lparr>is_is_open = True, is_fail = False, is_data = content, is_pos = p + n,
               is_gcount = n, is_reads = 2\<rparr>,
        footer = \<lparr>index_block_handle = \<lparr>h_offset = of_nat p, h_size = of_nat n\<rparr>,
                  magic_number = SSTABLE_MAGIC_NUMBER\<rparr>,
        is_valid = False, rd_index_data = m\<rparr>)"
    using len foot idx p n pn
    by (simp add: LoadIndex_def Reader_init_def ifstream_open_def is_tellg_def is_seekg_def
        is_read_def FOOTER_SIZE_def BLOCK_HANDLE_SIZE_def Let_def Footer_DecodeFrom_encoded
        ReadDataBlock_at loop Footer_init_def)
  moreover have "SSTableReader_new (Some content) =
      (case LoadIndex (Reader_init content) of
         (False, r1) \<Rightarrow> r1\<lparr>ifs := is_close (ifs r1)\<rparr>
       | (True, r1) \<Rightarrow> r1\<lparr>is_valid := True\<rparr>)"
    by (simp add: SSTableReader_new_def Reader_init_def ifstream_open_def Let_def)
  ultimately show ?thesis
    by (simp add: good_reader_def)
qed

lemma Get_good_reader:
  assumes g: "good_reader content m r"
    and lb: "lower_bound m key = Some (k, \<lparr>h_offset = of_nat p, h_size = of_nat n\<rparr>)"
    and p: "p < 9223372036854775808" and n: "n < 4294967296"
    and pn: "p + n \<le> length content"
  shows "fst (Get r key) = FindInBlock (take n (drop p content)) key"
proof -
  from g have "is_valid r" "rd_index_data r = m" "\<not> is_fail (ifs r)" "is_data (ifs r) = content"
    by (auto simp: good_reader_def)
  then show ?thesis
    using lb p n pn by (simp add: Get_def ReadDataBlock_at)
qed

lemma single_record_table:
  "table_bytes [(key, val)] =
     writeKV [] key val @
     writeKV [] key (enc_u64 0 @ enc_u32 (of_nat (length (writeKV [] key val)))) @
     enc_u64 (of_nat (length (writeKV [] key val))) @
     enc_u32 (of_nat (20 + length key)) @ enc_u64 SSTABLE_MAGIC_NUMBER \<and>
   fst (Finish (AddAll (SSTableBuilder_new True) [(key, val)]))"
proof -
  have "final_blocks (layout [(key, val)]) = [[(key, val)]]"
    by (simp add: layout_def final_blocks_def)
  then show ?thesis
    using build_table_file [of "[(key, val)]"]
    by (simp add: table_file_def BlockHandle_EncodeTo_def add.commute)
qed

lemma wrap32:
  "(4294967297 :: 32 word) = 1" "(4294967306 :: 32 word) = 10" "(4294967317 :: 32 word) = 21"
  by simp_all

lemma FindInBlock_single:
  "8 + length key + length val < 4294967296 \<Longrightarrow>
   FindInBlock (writeKV [] key val) key = Some val"
  using FindInBlock_encode_block [of "[(key, val)]" key] by simp

lemma huge_value_reader:
  "good_reader (table_bytes [([97], huge_value)]) [([97], \<lparr>h_offset = 0, h_size = 10\<rparr>)]
     (SSTableReader_new (Some (table_bytes [([97], huge_value)])))"
proof (rule Reader_new_footer [where p = 4294967306 and n = 21
      and body = "writeKV [] [97] huge_value @ writeKV [] [97] (enc_u64 0 @ enc_u32 10)"])
  show "table_bytes [([97], huge_value)] =
      (writeKV [] [97] huge_value @ writeKV [] [97] (enc_u64 0 @ enc_u32 10)) @
      enc_u64 (of_nat 4294967306) @ enc_u32 (of_nat 21) @ enc_u64 SSTABLE_MAGIC_NUMBER"
    by (simp add: single_record_table huge_value_def wrap32)
  show "take 21 (drop 4294967306 (table_bytes [([97], huge_value)]))
      = encode_index [([97], \<lparr>h_offset = 0, h_size = 10\<rparr>)]"
    by (simp add: single_record_table huge_value_def BlockHandle_EncodeTo_def wrap32)
  show "4294967306 + 21 \<le> length (table_bytes [([97], huge_value)])"
    by (simp add: single_record_table huge_value_def wrap32)
qed simp_all



section \<open>Reading back what was written\<close>

text \<open>
  Claim C2, as stated: for every sequence of records with strictly ascending keys, every
  inserted key is found with the value inserted for it. It does not hold for a value of
  2^32 bytes or more, whose length \<^verbatim>\<open>writeKV\<close> stores modulo 2^32: the key a with a value
  of 2^32 + 1 zero bytes is added, the table is finished and the reader is valid, and
  \<^verbatim>\<open>Get\<close> finds the key a with a value of one byte.
\<close>

theorem huge_value_read_back_truncated:
  "sorted_wrt (<) (map fst [([97 :: byte], huge_value)]) \<and>
   fst (Add (SSTableBuilder_new True) [97] huge_value) \<and>
   fst (Finish (AddAll (SSTableBuilder_new True) [([97], huge_value)])) \<and>
   is_valid (SSTableReader_new (Some (table_bytes [([97], huge_value)]))) \<and>
   fst (Get (SSTableReader_new (Some (table_bytes [([97], huge_value)]))) [97]) = Some [0] \<and>
   [0] \<noteq> huge_value"
proof -
  let ?r = "SSTableReader_new (Some (table_bytes [([97], huge_value)]))"
  have 1: "fst (Add (SSTableBuilder_new True) [97] huge_value)"
    by (simp add: Add_new)
  have 2: "fst (Finish (AddAll (SSTableBuilder_new True) [([97], huge_value)]))"
    using single_record_table [of "[97]" huge_value] by blast
  have 3: "is_valid ?r"
    using huge_value_reader by (simp add: good_reader_def)
  have "fst (Get ?r [97])
      = FindInBlock (take 10 (drop 0 (table_bytes [([97], huge_value)]))) [97]"
    by (rule Get_good_reader [OF huge_value_reader])
      (simp_all add: single_record_table huge_value_def wrap32)
  also have "take 10 (drop 0 (table_bytes [([97], huge_value)])) = writeKV [] [97] [0]"
    by (simp add: single_record_table huge_value_def writeKV_def enc_eval wrap32)
  also have "FindInBlock (writeKV [] [97] [0]) [97] = Some [0]"
    by (rule FindInBlock_single) simp
  finally have 4: "fst (Get ?r [97]) = Some [0]" .
  have 5: "[0] \<noteq> huge_value"
  proof
    assume "[0] = huge_value"
    then have "length [0 :: byte] = length huge_value"
      by simp
    then show False
      by (simp add: huge_value_def)
  qed
  from 1 2 3 4 5 show ?thesis
    by simp
qed

text \<open>
  Claim C2, amended. For every sequence of records with strictly ascending keys in which
  each record has an encoded size below 2^32 bytes, and whose table has an index block
  below 2^32 bytes and a file below 2^63 bytes: every \<^verbatim>\<open>Add\<close> of the sequence succeeds,
  \<^verbatim>\<open>Finish\<close> succeeds, the reader opened on the file is valid and, after any sequence of
  earlier queries, \<^verbatim>\<open>Get\<close> on an inserted key finds the value inserted for it, whatever
  the number of blocks.
\<close>

theorem build_then_get_round_trip:
  assumes "sorted_wrt (<) (map fst kvs)"
    and "\<forall>(key, val) \<in> set kvs. 8 + length key + length val < 4294967296"
    and "length (index_block_buffer (index_data (build_table kvs))) < 4294967296"
    and "length (table_bytes kvs) < 9223372036854775808"
  shows "(\<forall>i < length kvs.
            fst (Add (AddAll (SSTableBuilder_new True) (take i kvs))
                  (fst (kvs ! i)) (snd (kvs ! i)))) \<and>
         fst (Finish (AddAll (SSTableBuilder_new True) kvs)) \<and>
         is_valid (SSTableReader_new (Some (table_bytes kvs))) \<and>
         (\<forall>(key, val) \<in> set kvs.
            fst (Get (snd (GetAll (SSTableReader_new (Some (table_bytes kvs))) keys)) key)
              = Some val)"
proof -
  have rok: "records_ok kvs"
    using assms(2) by (simp add: records_ok_def)
  have 1: "\<forall>i < length kvs.
      fst (Add (AddAll (SSTableBuilder_new True) (take i kvs)) (fst (kvs ! i)) (snd (kvs ! i)))"
    using Add_succeeds [OF assms(1)] by blast
  have 2: "fst (Finish (AddAll (SSTableBuilder_new True) kvs))"
    using build_table_file [OF assms(1)] by simp
  have 3: "is_valid (SSTableReader_new (Some (table_bytes kvs)))"
    using table_lookup [OF assms(1) rok assms(3) assms(4)] by simp
  have 4: "fst (Get (snd (GetAll (SSTableReader_new (Some (table_bytes kvs))) keys)) key)
      = Some val" if "(key, val) \<in> set kvs" for key val
  proof -
    have "map_of kvs key = Some val"
      using sorted_keys_distinct [OF assms(1)] that by (rule map_of_is_SomeI)
    then show ?thesis
      using table_lookup [OF assms(1) rok assms(3) assms(4), of keys key] by simp
  qed
  from 1 2 3 4 show ?thesis
    by blast
qed

theorem build_then_get_round_trip_witness:
  "map fst (index_data (build_table four_records)) = [[99], [100]] \<and>
   is_valid (SSTableReader_new (Some (table_bytes four_records))) \<and>
   fst (Get (snd (GetAll (SSTableReader_new (Some (table_bytes four_records))) [[100], [122]]))
          [98]) = Some (replicate 30 2) \<and>
   fst (Get (snd (GetAll (SSTableReader_new (Some (table_bytes four_records))) [[100], [122]]))
          [100]) = Some (replicate 30 4)"
proof -
  have m: "([98], replicate 30 2) \<in> set four_records" "([100], replicate 30 4) \<in> set four_records"
    by (simp_all add: four_records_def)
  from four_records_hyps have h: "sorted_wrt (<) (map fst four_records)"
    "\<forall>(key, val) \<in> set four_records. 8 + length key + length val < 4294967296"
    "length (index_block_buffer (index_data (build_table four_records))) < 4294967296"
    "length (table_bytes four_records) < 9223372036854775808"
    by blast+
  show ?thesis
    using build_then_get_round_trip [OF h, of "[[100], [122]]"] m four_records_index
    by fastforce
qed




section \<open>A table built from unordered keys\<close>

text \<open>
  What the accepted keys lead to. The records (b, 1) and (a, 2) are added in this order to
  a new builder and the table is finished; every call returns true. The two records
  share one block, which the index lists under its last key a. The reader opened on the
  file is valid, and it finds neither key: for b the index has no entry at or after it,
  and for a the scan of the block stops at the greater key b that comes first.
\<close>

lemma Add_b_a:
  "Add (snd (Add (SSTableBuilder_new True) [98] [49])) [97] [50] =
     (True, \<lparr>ofs = \<lparr>os_is_open = True, os_fail = False, os_data = []\<rparr>,
             finished = False,
             cur_data_block = writeKV [] [98] [49] @ writeKV [] [97] [50],
             last_key_in_block = [97], cur_data_block_offset = 0, index_data = []\<rparr>)"
  apply (simp only: Add_new snd_conv)
  apply (simp add: Add_def Let_def unat_getEntrySize DATA_BLOCK_SIZE_THRESHOLD_def
      writeKV_append [of "writeKV [] [98] [49]"])
  done

lemma unordered_table_bytes:
  "fst (Finish (AddAll (SSTableBuilder_new True) [([98], [49]), ([97], [50])])) \<and>
   table_bytes [([98], [49]), ([97], [50])] =
     (writeKV [] [98] [49] @ writeKV [] [97] [50] @
      writeKV [] [97] (BlockHandle_EncodeTo \<lparr>h_offset = 0, h_size = 20\<rparr> [])) @
     enc_u64 (of_nat 20) @ enc_u32 (of_nat 21) @ enc_u64 SSTABLE_MAGIC_NUMBER"
  apply (simp only: table_bytes_def build_table_def AddAll.simps Add_b_a snd_conv)
  apply (simp add: Finish_def Let_def FlushDataBlock_def os_write_def os_tellp_def os_close_def
      index_block_buffer_def Footer_EncodeTo_def BlockHandle_EncodeTo_def BlockHandle_init_def
      FOOTER_SIZE_def BLOCK_HANDLE_SIZE_def)
  done

lemma unordered_table_reader:
  "good_reader (table_bytes [([98], [49]), ([97], [50])])
     [([97], \<lparr>h_offset = of_nat 0, h_size = of_nat 20\<rparr>)]
     (SSTableReader_new (Some (table_bytes [([98], [49]), ([97], [50])])))"
  apply (rule Reader_new_footer [where p = 20 and n = 21 and
        body = "writeKV [] [98] [49] @ writeKV [] [97] [50] @
                writeKV [] [97] (BlockHandle_EncodeTo \<lparr>h_offset = 0, h_size = 20\<rparr> [])"])
       apply (simp_all add: unordered_table_bytes)
  done

lemma Get_beyond_index:
  "good_reader content m r \<Longrightarrow> lower_bound m key = None \<Longrightarrow> Get r key = (None, r)"
  by (simp add: Get_def good_reader_def)

lemma unordered_records_not_found:
  "fst (Add (SSTableBuilder_new True) [98] [49]) \<and>
   fst (Add (snd (Add (SSTableBuilder_new True) [98] [49])) [97] [50]) \<and>
   fst (Finish (AddAll (SSTableBuilder_new True) [([98], [49]), ([97], [50])])) \<and>
   is_valid (SSTableReader_new (Some (table_bytes [([98], [49]), ([97], [50])]))) \<and>
   fst (Get (SSTableReader_new (Some (table_bytes [([98], [49]), ([97], [50])]))) [98]) = None \<and>
   fst (Get (SSTableReader_new (Some (table_bytes [([98], [49]), ([97], [50])]))) [97]) = None"
proof -
  let ?t = "table_bytes [([98], [49]), ([97], [50])]"
  let ?r = "SSTableReader_new (Some ?t)"
  have 1: "fst (Add (SSTableBuilder_new True) [98] [49])"
    by (simp add: Add_new)
  have 2: "fst (Add (snd (Add (SSTableBuilder_new True) [98] [49])) [97] [50])"
    by (simp only: Add_b_a fst_conv)
  have 3: "fst (Finish (AddAll (SSTableBuilder_new True) [([98], [49]), ([97], [50])]))"
    using unordered_table_bytes by blast
  have 4: "is_valid ?r"
    using unordered_table_reader by (simp add: good_reader_def)
  have 5: "fst (Get ?r [98]) = None"
    using Get_beyond_index [OF unordered_table_reader, of "[98]"] by simp
  have "fst (Get ?r [97]) = FindInBlock (take 20 (drop 0 ?t)) [97]"
    by (rule Get_good_reader [OF unordered_table_reader]) (simp_all add: unordered_table_bytes)
  also have "take 20 (drop 0 ?t) = writeKV [] [98] [49] @ writeKV [] [97] [50]"
    by (simp add: unordered_table_bytes)
  also have "FindInBlock (writeKV [] [98] [49] @ writeKV [] [97] [50]) [97] = None"
    by (subst FindInBlock.simps) (simp add: readKV_writeKV)
  finally have 6: "fst (Get ?r [97]) = None" .
  from 1 2 3 4 5 6 show ?thesis
    by (intro conjI)
qed

section \<open>A corrupt copy of a table\<close>

theorem corrupt_table_invalid_witness:
  "\<not> is_valid (SSTableReader_new (Some (take 19 (table_bytes [([97], [49])])))) \<and>
   \<not> is_valid (SSTableReader_new (Some (butlast (table_bytes [([97], [49])]) @ [223]))) \<and>
   GetAll (SSTableReader_new (Some (butlast (table_bytes [([97], [49])]) @ [223]))) [[97], [98]]
     = ([None, None],
        SSTableReader_new (Some (butlast (table_bytes [([97], [49])]) @ [223])))"
proof -
  let ?t = "table_bytes [([97], [49])]"
  have 1: "length (take 19 ?t) < 20"
    by simp
  have 2: "drop (length (butlast ?t @ [223]) - 8) (butlast ?t @ [223])
      \<noteq> enc_u64 SSTABLE_MAGIC_NUMBER"
    by (simp add: single_record_table writeKV_def enc_eval SSTABLE_MAGIC_NUMBER_def
        butlast_append)
  show ?thesis
    using corrupt_table_invalid [of "take 19 ?t" "SSTableReader_new (Some (take 19 ?t))" "[]"]
      corrupt_table_invalid [of "butlast ?t @ [223]"
        "SSTableReader_new (Some (butlast ?t @ [223]))" "[[97], [98]]"] 1 2
    by simp
qed

end
